theory Spec2Isabelle
  imports Main "HOL-Library.Word"
begin

unbundle bit_operations_syntax

section \<open>Data model of \<open>evenk/bounded_queue.h\<close>\<close>

text \<open>
  The queue is the class template \<open>BoundedQueue<ValueType, WaitType>\<close> at its default
  wait strategy \<open>WaitType = BoundedQueueNoWait\<close>. Machine integers keep their widths:
  the slot ticket is a \<open>std::uint32_t\<close>, the counters \<open>head_\<close> and \<open>tail_\<close> are
  \<open>std::uint64_t\<close>, and all arithmetic on them wraps.
\<close>

type_synonym u32 = "32 word"
type_synonym u64 = "64 word"

datatype memory_order =
  memory_order_relaxed | memory_order_acquire | memory_order_release | memory_order_seq_cst

text \<open>
  \<open>struct Slot : WaitType { ValueType value; }\<close> with the \<open>ticket_\<close> atom of
  \<open>BoundedQueueSlotBase\<close>. The field \<open>val\<close> is the member \<open>value\<close>.
\<close>

record 'v Slot =
  ticket :: u32
  val :: 'v

text \<open>
  The members of \<open>BoundedQueue\<close>. The pointer \<open>ring_\<close> is \<open>None\<close> when it is
  \<open>nullptr\<close> and otherwise holds the slot array it points to.
\<close>

record 'v BoundedQueue =
  ring :: "'v Slot list option"
  mask :: u32
  finish :: bool
  head :: u64
  tail :: u64

datatype error = invalid_argument | bad_alloc

subsection \<open>\<open>BoundedQueueSlotBase\<close> and \<open>BoundedQueueNoWait\<close>\<close>

definition Initialize :: "u32 \<Rightarrow> 'v Slot \<Rightarrow> 'v Slot" where
  "Initialize v s = s\<lparr>ticket := v\<rparr>"

definition Load :: "'v Slot \<Rightarrow> u32" where
  "Load s = ticket s"

definition Store :: "u32 \<Rightarrow> 'v Slot \<Rightarrow> 'v Slot" where
  "Store v s = s\<lparr>ticket := v\<rparr>"

text \<open>\<open>WaitAndLoad\<close> ignores its argument and loads; \<open>StoreAndWake\<close> stores; \<open>Wake\<close> is empty.\<close>

definition WaitAndLoad :: "u32 \<Rightarrow> 'v Slot \<Rightarrow> u32" where
  "WaitAndLoad v s = Load s"

definition StoreAndWake :: "u32 \<Rightarrow> 'v Slot \<Rightarrow> 'v Slot" where
  "StoreAndWake v s = Store v s"

definition Wake :: "'v Slot \<Rightarrow> 'v Slot" where
  "Wake s = s"

subsection \<open>Construction, move construction and destruction\<close>

text \<open>
  The loop \<open>for (std::uint32_t i = 0; i < size; i++) ring_[i].Initialize(i)\<close>, started at
  \<open>i\<close> on the array \<open>r\<close>.
\<close>

function init_tickets :: "u32 \<Rightarrow> u32 \<Rightarrow> 'v Slot list \<Rightarrow> 'v Slot list" where
  "init_tickets i sz r =
     (if i < sz then init_tickets (i + 1) sz (r[unat i := Initialize i (r ! unat i)])
      else r)"
  by pat_completeness auto

lemma unat_succ_below: "i < n \<Longrightarrow> unat (i + 1) = Suc (unat i)" for i n :: u32
proof -
  assume "i < n"
  then have "unat i < unat n" by (simp add: word_less_nat_alt)
  moreover have "unat n < 2 ^ 32" using unsigned_less [of n] by simp
  ultimately have "unat i + 1 < 2 ^ 32" by simp
  then show ?thesis by (simp add: unat_word_ariths)
qed

termination init_tickets
proof (relation "measure (\<lambda>(i, sz, r). unat sz - unat i)")
  show "wf (measure (\<lambda>(i, sz, r :: 'v Slot list). unat sz - unat i))" by simp
next
  fix i sz :: u32 and r :: "'v Slot list"
  assume lt: "i < sz"
  then have "unat i < unat sz" by (simp add: word_less_nat_alt)
  with unat_succ_below [OF lt]
  show "((i + 1, sz, r[unat i := Initialize i (r ! unat i)]), (i, sz, r))
          \<in> measure (\<lambda>(i, sz, r). unat sz - unat i)"
    by simp
qed

declare init_tickets.simps [simp del]

text \<open>
  \<open>BoundedQueue(std::uint32_t size)\<close>. The two things the constructor takes from its
  platform are arguments: \<open>memalign_ok\<close> says whether \<open>posix_memalign\<close> returned \<open>0\<close>, and
  \<open>fresh i\<close> is slot \<open>i\<close> as the placement \<open>new (ring) Slot[size]\<close> leaves it (a
  default-constructed value and a ticket not yet written).
\<close>

definition BoundedQueue_ctor ::
  "bool \<Rightarrow> (nat \<Rightarrow> 'v Slot) \<Rightarrow> u32 \<Rightarrow> error + 'v BoundedQueue" where
  "BoundedQueue_ctor memalign_ok fresh sz =
     (let q = \<lparr>ring = None, mask = sz - 1, finish = False, head = 0, tail = 0\<rparr> in
      if sz = 0 \<or> sz AND mask q \<noteq> 0 then Inl invalid_argument
      else if \<not> memalign_ok then Inl bad_alloc
      else Inr (q\<lparr>ring := Some (init_tickets 0 sz (map fresh [0..<unat sz]))\<rparr>))"

text \<open>
  \<open>BoundedQueue(BoundedQueue &&other)\<close>: the pair of the new queue and of \<open>other\<close> as
  the constructor leaves it.
\<close>

definition BoundedQueue_move :: "'v BoundedQueue \<Rightarrow> 'v BoundedQueue \<times> 'v BoundedQueue" where
  "BoundedQueue_move other =
     (\<lparr>ring = ring other, mask = mask other, finish = False, head = 0, tail = 0\<rparr>,
      other\<lparr>ring := None\<rparr>)"

text \<open>
  \<open>Destroy()\<close>, called by the destructor, as the list of what it does to memory: one
  \<open>SlotDtor i\<close> for each \<open>ring_[i].~Slot()\<close> and \<open>Free\<close> for \<open>std::free(ring_)\<close>.
\<close>

datatype mem_event = SlotDtor nat | Free

function destroy_slots :: "u32 \<Rightarrow> u32 \<Rightarrow> mem_event list" where
  "destroy_slots i sz =
     (if i < sz then SlotDtor (unat i) # destroy_slots (i + 1) sz else [])"
  by pat_completeness auto

termination destroy_slots
proof (relation "measure (\<lambda>(i, sz). unat sz - unat i)")
  show "wf (measure (\<lambda>(i :: u32, sz :: u32). unat sz - unat i))" by simp
next
  fix i sz :: u32
  assume lt: "i < sz"
  then have "unat i < unat sz" by (simp add: word_less_nat_alt)
  with unat_succ_below [OF lt]
  show "((i + 1, sz), (i, sz)) \<in> measure (\<lambda>(i, sz). unat sz - unat i)"
    by simp
qed

declare destroy_slots.simps [simp del]

definition Destroy :: "'v BoundedQueue \<Rightarrow> mem_event list" where
  "Destroy q =
     (case ring q of
        None \<Rightarrow> []
      | Some r \<Rightarrow> (let sz = mask q + 1 in destroy_slots 0 sz @ [Free]))"

section \<open>Operations that run concurrently\<close>

text \<open>
  \<open>Enqueue\<close>, \<open>Dequeue\<close> and \<open>Finish\<close> run while other threads work on the same
  queue. One call is a sequence of steps, each one access to the shared members (or one
  call of the backoff), and before each step the other threads may have done any number
  of their own writes. A schedule lists those writes, step by step; the call is run
  against a schedule and every step it takes is logged with the queue as it was just
  before and just after the step.
\<close>

text \<open>The writes of other threads: what \<open>Enqueue\<close>, \<open>Dequeue\<close> and \<open>Finish\<close> store.\<close>

datatype 'v other =
    OtherTailFetchAdd
  | OtherHeadFetchAdd
  | OtherValueAssign nat 'v
  | OtherStoreAndWake nat u32
  | OtherFinishStore

datatype 'v event =
    TailFetchAdd memory_order u64
  | HeadFetchAdd memory_order u64
  | TailLoad memory_order u64
  | FinishLoad memory_order bool
  | FinishStore memory_order bool
  | SlotLoad nat u32
  | SlotWaitAndLoad nat u32 u32
  | SlotStoreAndWake nat u32
  | SlotWake nat
  | ValueAssign nat 'v
  | ValueMoveOut nat 'v
  | BackoffCall bool

type_synonym 'v step = "'v event \<times> 'v BoundedQueue \<times> 'v BoundedQueue"

record 'v world =
  queue :: "'v BoundedQueue"
  sched :: "'v other list list"
  log :: "'v step list"

text \<open>
  A call returns (\<open>Ret\<close>), is still inside a step when the schedule ends (\<open>Pending\<close>),
  or uses \<open>ring_[i]\<close> where \<open>ring_\<close> is null or \<open>i\<close> is outside the array (\<open>Fault\<close>).
\<close>

datatype 'a res = Ret 'a | Pending | Fault

subsection \<open>Accesses to the members\<close>

text \<open>\<open>ring_[i].m(...)\<close> for a method \<open>m\<close> of the slot that returns \<open>a\<close>.\<close>

definition on_slot ::
  "nat \<Rightarrow> ('v Slot \<Rightarrow> 'a \<times> 'v Slot) \<Rightarrow> 'v BoundedQueue \<Rightarrow> ('a \<times> 'v BoundedQueue) option" where
  "on_slot i m q =
     (case ring q of
        None \<Rightarrow> None
      | Some r \<Rightarrow>
          if i < length r
          then (case m (r ! i) of (a, s) \<Rightarrow> Some (a, q\<lparr>ring := Some (r[i := s])\<rparr>))
          else None)"

fun perform :: "'v other \<Rightarrow> 'v BoundedQueue \<Rightarrow> 'v BoundedQueue" where
  "perform OtherTailFetchAdd q = q\<lparr>tail := tail q + 1\<rparr>"
| "perform OtherHeadFetchAdd q = q\<lparr>head := head q + 1\<rparr>"
| "perform (OtherValueAssign i v) q =
     (case on_slot i (\<lambda>s. ((), s\<lparr>val := v\<rparr>)) q of None \<Rightarrow> q | Some (u, q') \<Rightarrow> q')"
| "perform (OtherStoreAndWake i t) q =
     (case on_slot i (\<lambda>s. ((), StoreAndWake t s)) q of None \<Rightarrow> q | Some (u, q') \<Rightarrow> q')"
| "perform OtherFinishStore q = q\<lparr>finish := True\<rparr>"

definition interfere :: "'v other list \<Rightarrow> 'v BoundedQueue \<Rightarrow> 'v BoundedQueue" where
  "interfere os q = foldl (\<lambda>q' a. perform a q') q os"

text \<open>One step of the call: the other threads' writes scheduled before it, then the access.\<close>

definition atomic ::
  "('v BoundedQueue \<Rightarrow> ('a \<times> 'v BoundedQueue) option) \<Rightarrow> ('a \<Rightarrow> 'v event) \<Rightarrow>
     'v world \<Rightarrow> 'a res \<times> 'v world" where
  "atomic f ev w =
     (case sched w of
        [] \<Rightarrow> (Pending, w)
      | os # rest \<Rightarrow>
          (let q = interfere os (queue w) in
           case f q of
             None \<Rightarrow> (Fault, w\<lparr>queue := q, sched := rest\<rparr>)
           | Some (a, q') \<Rightarrow>
               (Ret a, w\<lparr>queue := q', sched := rest, log := log w @ [(ev a, q, q')]\<rparr>)))"

definition ret :: "'a \<Rightarrow> 'v world \<Rightarrow> 'a res \<times> 'v world" where
  "ret a w = (Ret a, w)"

text \<open>Sequencing: the rest of the call runs when the first part has returned.\<close>

definition thn ::
  "('v world \<Rightarrow> 'a res \<times> 'v world) \<Rightarrow> ('a \<Rightarrow> 'v world \<Rightarrow> 'b res \<times> 'v world) \<Rightarrow>
     'v world \<Rightarrow> 'b res \<times> 'v world" where
  "thn m k w =
     (case m w of
        (Ret a, w') \<Rightarrow> k a w'
      | (Pending, w') \<Rightarrow> (Pending, w')
      | (Fault, w') \<Rightarrow> (Fault, w'))"

lemma thn_cong [fundef_cong]:
  "m w = m' w' \<Longrightarrow> (\<And>a w''. m' w' = (Ret a, w'') \<Longrightarrow> k a w'' = k' a w'') \<Longrightarrow>
     thn m k w = thn m' k' w'"
  by (auto simp: thn_def split: prod.splits res.splits)

definition tail_fetch_add :: "memory_order \<Rightarrow> 'v world \<Rightarrow> u64 res \<times> 'v world" where
  "tail_fetch_add mo = atomic (\<lambda>q. Some (tail q, q\<lparr>tail := tail q + 1\<rparr>)) (TailFetchAdd mo)"

definition head_fetch_add :: "memory_order \<Rightarrow> 'v world \<Rightarrow> u64 res \<times> 'v world" where
  "head_fetch_add mo = atomic (\<lambda>q. Some (head q, q\<lparr>head := head q + 1\<rparr>)) (HeadFetchAdd mo)"

definition tail_load :: "memory_order \<Rightarrow> 'v world \<Rightarrow> u64 res \<times> 'v world" where
  "tail_load mo = atomic (\<lambda>q. Some (tail q, q)) (TailLoad mo)"

definition finish_load :: "memory_order \<Rightarrow> 'v world \<Rightarrow> bool res \<times> 'v world" where
  "finish_load mo = atomic (\<lambda>q. Some (finish q, q)) (FinishLoad mo)"

definition finish_store :: "bool \<Rightarrow> memory_order \<Rightarrow> 'v world \<Rightarrow> unit res \<times> 'v world" where
  "finish_store b mo = atomic (\<lambda>q. Some ((), q\<lparr>finish := b\<rparr>)) (\<lambda>u. FinishStore mo b)"

definition slot_Load :: "nat \<Rightarrow> 'v world \<Rightarrow> u32 res \<times> 'v world" where
  "slot_Load i = atomic (on_slot i (\<lambda>s. (Load s, s))) (SlotLoad i)"

definition slot_WaitAndLoad :: "nat \<Rightarrow> u32 \<Rightarrow> 'v world \<Rightarrow> u32 res \<times> 'v world" where
  "slot_WaitAndLoad i v = atomic (on_slot i (\<lambda>s. (WaitAndLoad v s, s))) (SlotWaitAndLoad i v)"

definition slot_StoreAndWake :: "nat \<Rightarrow> u32 \<Rightarrow> 'v world \<Rightarrow> unit res \<times> 'v world" where
  "slot_StoreAndWake i v =
     atomic (on_slot i (\<lambda>s. ((), StoreAndWake v s))) (\<lambda>u. SlotStoreAndWake i v)"

definition slot_Wake :: "nat \<Rightarrow> 'v world \<Rightarrow> unit res \<times> 'v world" where
  "slot_Wake i = atomic (on_slot i (\<lambda>s. ((), Wake s))) (\<lambda>u. SlotWake i)"

text \<open>\<open>slot.value = v\<close>, by move or by copy.\<close>

definition slot_assign :: "nat \<Rightarrow> 'v \<Rightarrow> 'v world \<Rightarrow> unit res \<times> 'v world" where
  "slot_assign i v = atomic (on_slot i (\<lambda>s. ((), s\<lparr>val := v\<rparr>))) (\<lambda>u. ValueAssign i v)"

text \<open>
  \<open>value = std::move(slot.value)\<close>: the caller gets the slot's value, and the slot keeps
  what a move leaves of it, \<open>moved_from\<close> of the value (the identity for a type that is
  copied).
\<close>

definition slot_move_out :: "('v \<Rightarrow> 'v) \<Rightarrow> nat \<Rightarrow> 'v world \<Rightarrow> 'v res \<times> 'v world" where
  "slot_move_out moved_from i =
     atomic (on_slot i (\<lambda>s. (val s, s\<lparr>val := moved_from (val s)\<rparr>))) (ValueMoveOut i)"

text \<open>
  A backoff is a callable with a state of its own, copied into the call: \<open>backoff n\<close> is
  what its call number \<open>n\<close> returns. It touches no member of the queue.
\<close>

definition call_backoff :: "(nat \<Rightarrow> bool) \<Rightarrow> nat \<Rightarrow> 'v world \<Rightarrow> bool res \<times> 'v world" where
  "call_backoff backoff n = atomic (\<lambda>q. Some (backoff n, q)) BackoffCall"

lemma atomic_Ret_sched:
  "atomic f ev w = (Ret a, w') \<Longrightarrow> length (sched w') < length (sched w)"
  by (auto simp: atomic_def Let_def split: list.splits option.splits)

subsection \<open>\<open>Finished\<close> and \<open>Finish\<close>\<close>

definition Finished :: "'v world \<Rightarrow> bool res \<times> 'v world" where
  "Finished = finish_load memory_order_relaxed"

text \<open>The loop \<open>for (std::uint32_t i = 0; i < mask_ + 1; i++) ring_[i].Wake()\<close> from \<open>i\<close>.\<close>

function wake_slots :: "u32 \<Rightarrow> u32 \<Rightarrow> 'v world \<Rightarrow> unit res \<times> 'v world" where
  "wake_slots i sz w =
     (if i < sz then thn (slot_Wake (unat i)) (\<lambda>u. wake_slots (i + 1) sz) w
      else (Ret (), w))"
  by pat_completeness auto

termination wake_slots
proof (relation "measure (\<lambda>(i, sz, w). unat sz - unat i)")
  show "wf (measure (\<lambda>(i, sz, w :: 'v world). unat sz - unat i))" by simp
next
  fix i sz :: u32 and w w' :: "'v world" and u :: unit
  assume lt: "i < sz"
  then have "unat i < unat sz" by (simp add: word_less_nat_alt)
  with unat_succ_below [OF lt]
  show "((i + 1, sz, w'), (i, sz, w)) \<in> measure (\<lambda>(i, sz, w). unat sz - unat i)"
    by simp
qed

declare wake_slots.simps [simp del]

definition Finish :: "'v world \<Rightarrow> unit res \<times> 'v world" where
  "Finish w =
     thn (finish_store True memory_order_relaxed)
       (\<lambda>u w1. wake_slots 0 (mask (queue w1) + 1) w1) w"

subsection \<open>The wait loops\<close>

text \<open>
  \<open>WaitTail(slot, required_ticket)\<close>: the \<open>while\<close> loop entered with \<open>current_ticket\<close>,
  and the function, which loads the ticket first. The slot is its index in the ring.
\<close>

function WaitTail_loop :: "nat \<Rightarrow> u64 \<Rightarrow> u32 \<Rightarrow> 'v world \<Rightarrow> unit res \<times> 'v world" where
  "WaitTail_loop slot required_ticket current_ticket w =
     (if current_ticket \<noteq> ucast required_ticket then
        thn (slot_WaitAndLoad slot current_ticket)
          (\<lambda>c. WaitTail_loop slot required_ticket c) w
      else (Ret (), w))"
  by pat_completeness auto

termination WaitTail_loop
  by (relation "measure (\<lambda>(slot, required_ticket, current_ticket, w). length (sched w))")
     (auto simp: slot_WaitAndLoad_def dest: atomic_Ret_sched)

declare WaitTail_loop.simps [simp del]

definition WaitTail :: "nat \<Rightarrow> u64 \<Rightarrow> 'v world \<Rightarrow> unit res \<times> 'v world" where
  "WaitTail slot required_ticket =
     thn (slot_Load slot) (\<lambda>current_ticket. WaitTail_loop slot required_ticket current_ticket)"

text \<open>
  \<open>WaitTail(slot, required_ticket, backoff)\<close>. The loop carries \<open>waiting\<close> and
  \<open>current_ticket\<close>, and the number \<open>n\<close> of calls of the backoff made so far.
\<close>

function WaitTail_backoff_loop ::
  "nat \<Rightarrow> u64 \<Rightarrow> (nat \<Rightarrow> bool) \<Rightarrow> nat \<Rightarrow> bool \<Rightarrow> u32 \<Rightarrow> 'v world \<Rightarrow> unit res \<times> 'v world" where
  "WaitTail_backoff_loop slot required_ticket backoff n waiting current_ticket w =
     (if current_ticket \<noteq> ucast required_ticket then
        if waiting then
          thn (slot_WaitAndLoad slot current_ticket)
            (\<lambda>c. WaitTail_backoff_loop slot required_ticket backoff n waiting c) w
        else
          thn (call_backoff backoff n)
            (\<lambda>b. thn (slot_Load slot)
               (\<lambda>c. WaitTail_backoff_loop slot required_ticket backoff (Suc n) b c)) w
      else (Ret (), w))"
  by pat_completeness auto

termination WaitTail_backoff_loop
  by (relation "measure (\<lambda>(slot, required_ticket, backoff, n, waiting, current_ticket, w).
        length (sched w))")
     (auto simp: slot_WaitAndLoad_def slot_Load_def call_backoff_def
           dest!: atomic_Ret_sched)

declare WaitTail_backoff_loop.simps [simp del]

definition WaitTail_backoff ::
  "nat \<Rightarrow> u64 \<Rightarrow> (nat \<Rightarrow> bool) \<Rightarrow> 'v world \<Rightarrow> unit res \<times> 'v world" where
  "WaitTail_backoff slot required_ticket backoff =
     thn (slot_Load slot)
       (\<lambda>current_ticket.
          WaitTail_backoff_loop slot required_ticket backoff 0 False current_ticket)"

text \<open>
  The block \<open>if (Finished()) { tail = tail_.load(seq_cst); if (required_ticket >= tail)
  return false; }\<close> that opens every iteration of both \<open>WaitHead\<close> loops: \<open>True\<close> when it
  takes the \<open>return false\<close>.
\<close>

definition finish_return :: "u64 \<Rightarrow> 'v world \<Rightarrow> bool res \<times> 'v world" where
  "finish_return required_ticket =
     thn Finished
       (\<lambda>f. if f then
               thn (tail_load memory_order_seq_cst) (\<lambda>tl. ret (required_ticket \<ge> tl))
             else ret False)"

lemma finish_return_sched:
  "finish_return r w = (Ret a, w') \<Longrightarrow> length (sched w') < length (sched w)"
  by (auto simp: finish_return_def thn_def Finished_def finish_load_def tail_load_def ret_def
           split: prod.splits res.splits if_splits dest!: atomic_Ret_sched)

function WaitHead_loop :: "nat \<Rightarrow> u64 \<Rightarrow> u32 \<Rightarrow> 'v world \<Rightarrow> bool res \<times> 'v world" where
  "WaitHead_loop slot required_ticket current_ticket w =
     (if current_ticket \<noteq> ucast required_ticket then
        thn (finish_return required_ticket)
          (\<lambda>stop w'. if stop then ret False w'
                      else thn (slot_WaitAndLoad slot current_ticket)
                             (\<lambda>c. WaitHead_loop slot required_ticket c) w') w
      else (Ret True, w))"
  by pat_completeness auto

termination WaitHead_loop
  by (relation "measure (\<lambda>(slot, required_ticket, current_ticket, w). length (sched w))")
     (auto simp: slot_WaitAndLoad_def dest!: atomic_Ret_sched finish_return_sched)

declare WaitHead_loop.simps [simp del]

definition WaitHead :: "nat \<Rightarrow> u64 \<Rightarrow> 'v world \<Rightarrow> bool res \<times> 'v world" where
  "WaitHead slot required_ticket =
     thn (slot_Load slot) (\<lambda>current_ticket. WaitHead_loop slot required_ticket current_ticket)"

function WaitHead_backoff_loop ::
  "nat \<Rightarrow> u64 \<Rightarrow> (nat \<Rightarrow> bool) \<Rightarrow> nat \<Rightarrow> bool \<Rightarrow> u32 \<Rightarrow> 'v world \<Rightarrow> bool res \<times> 'v world" where
  "WaitHead_backoff_loop slot required_ticket backoff n waiting current_ticket w =
     (if current_ticket \<noteq> ucast required_ticket then
        thn (finish_return required_ticket)
          (\<lambda>stop w'.
             if stop then ret False w'
             else if waiting then
               thn (slot_WaitAndLoad slot current_ticket)
                 (\<lambda>c. WaitHead_backoff_loop slot required_ticket backoff n waiting c) w'
             else
               thn (call_backoff backoff n)
                 (\<lambda>b. thn (slot_Load slot)
                    (\<lambda>c. WaitHead_backoff_loop slot required_ticket backoff (Suc n) b c)) w') w
      else (Ret True, w))"
  by pat_completeness auto

termination WaitHead_backoff_loop
  by (relation "measure (\<lambda>(slot, required_ticket, backoff, n, waiting, current_ticket, w).
        length (sched w))")
     (auto simp: slot_WaitAndLoad_def slot_Load_def call_backoff_def
           dest!: atomic_Ret_sched finish_return_sched)

declare WaitHead_backoff_loop.simps [simp del]

definition WaitHead_backoff ::
  "nat \<Rightarrow> u64 \<Rightarrow> (nat \<Rightarrow> bool) \<Rightarrow> 'v world \<Rightarrow> bool res \<times> 'v world" where
  "WaitHead_backoff slot required_ticket backoff =
     thn (slot_Load slot)
       (\<lambda>current_ticket.
          WaitHead_backoff_loop slot required_ticket backoff 0 False current_ticket)"

text \<open>\<open>WakeHead\<close> and \<open>WakeTail\<close> take the new ticket as a \<open>std::uint32_t\<close>.\<close>

definition WakeHead :: "nat \<Rightarrow> u32 \<Rightarrow> 'v world \<Rightarrow> unit res \<times> 'v world" where
  "WakeHead slot new_ticket = slot_StoreAndWake slot new_ticket"

definition WakeTail :: "nat \<Rightarrow> u32 \<Rightarrow> 'v world \<Rightarrow> unit res \<times> 'v world" where
  "WakeTail slot new_ticket = slot_StoreAndWake slot new_ticket"

subsection \<open>\<open>Enqueue\<close> and \<open>Dequeue\<close>\<close>

text \<open>
  \<open>Enqueue(value, backoff...)\<close>: the parameter pack is empty (\<open>None\<close>) or one backoff.
  The two overloads differ in moving or copying \<open>value\<close> into the slot. The slot
  \<open>ring_[tail & mask_]\<close> is the index \<open>tail & mask_\<close>, with \<open>mask_\<close> widened to 64 bits,
  and the argument \<open>tail + 1\<close> of \<open>WakeHead\<close> is converted to its 32-bit parameter.
\<close>

definition Enqueue :: "'v \<Rightarrow> (nat \<Rightarrow> bool) option \<Rightarrow> 'v world \<Rightarrow> unit res \<times> 'v world" where
  "Enqueue v backoff =
     thn (tail_fetch_add memory_order_seq_cst)
       (\<lambda>t w. let slot = unat (t AND ucast (mask (queue w))) in
          thn (case backoff of
                 None \<Rightarrow> WaitTail slot t
               | Some b \<Rightarrow> WaitTail_backoff slot t b)
            (\<lambda>u. thn (slot_assign slot v)
               (\<lambda>u. WakeHead slot (ucast (t + 1)))) w)"

text \<open>
  \<open>Dequeue(value, backoff...)\<close> takes the caller's \<open>value\<close> and returns the result with
  that variable as the call leaves it.
\<close>

definition Dequeue ::
  "('v \<Rightarrow> 'v) \<Rightarrow> 'v \<Rightarrow> (nat \<Rightarrow> bool) option \<Rightarrow> 'v world \<Rightarrow> (bool \<times> 'v) res \<times> 'v world" where
  "Dequeue moved_from v backoff =
     thn (head_fetch_add memory_order_relaxed)
       (\<lambda>h w. let slot = unat (h AND ucast (mask (queue w))) in
          thn (case backoff of
                 None \<Rightarrow> WaitHead slot (h + 1)
               | Some b \<Rightarrow> WaitHead_backoff slot (h + 1) b)
            (\<lambda>ok. if \<not> ok then ret (False, v)
                   else thn (slot_move_out moved_from slot)
                          (\<lambda>v'. thn (WakeTail slot (ucast (h + ucast (mask (queue w)) + 1)))
                             (\<lambda>u. ret (True, v')))) w)"

section \<open>Reading the log of a call\<close>

text \<open>
  The theorems below are about the log a call leaves. These are the words they use.
\<close>

text \<open>The ticket a step has read from a slot, and the tickets read along a log.\<close>

fun observed :: "'v event \<Rightarrow> u32 list" where
  "observed (SlotLoad i c) = [c]"
| "observed (SlotWaitAndLoad i a c) = [c]"
| "observed e = []"

definition tickets :: "'v event list \<Rightarrow> u32 list" where
  "tickets es = concat (map observed es)"

text \<open>\<open>first_match x cs\<close>: \<open>x\<close> occurs in \<open>cs\<close>, and only as its last element.\<close>

fun first_match :: "'a \<Rightarrow> 'a list \<Rightarrow> bool" where
  "first_match x [] = False"
| "first_match x (y # ys) = (if y = x then ys = [] else first_match x ys)"

text \<open>
  The steps of a wait loop on slot \<open>i\<close>: loads of the ticket of that slot, calls of the
  backoff, and the loads of the finish flag and of \<open>tail\<close>. A \<open>wait_step\<close> is such a step
  that leaves the queue as it found it.
\<close>

fun waits_on :: "nat \<Rightarrow> 'v event \<Rightarrow> bool" where
  "waits_on i (SlotLoad j c) = (j = i)"
| "waits_on i (SlotWaitAndLoad j a c) = (j = i)"
| "waits_on i (BackoffCall b) = True"
| "waits_on i (FinishLoad mo f) = True"
| "waits_on i (TailLoad mo t) = True"
| "waits_on i e = False"

definition wait_step :: "nat \<Rightarrow> 'v step \<Rightarrow> bool" where
  "wait_step i s = (waits_on i (fst s) \<and> snd (snd s) = fst (snd s))"

text \<open>
  The ticket loads and backoff calls of a log, and the shape they have in a wait loop with
  a backoff: after the first plain load (\<open>wait_with_backoff\<close>) come iterations that call the
  backoff, call number \<open>n\<close> returning \<open>backoff n\<close>, and then load plainly (\<open>backing_off\<close>);
  once a call has returned true, only \<open>WaitAndLoad\<close> follows (\<open>escalated\<close>). A log may stop
  anywhere, also between a call of the backoff and its load.
\<close>

fun loop_event :: "'v event \<Rightarrow> bool" where
  "loop_event (SlotLoad i c) = True"
| "loop_event (SlotWaitAndLoad i a c) = True"
| "loop_event (BackoffCall b) = True"
| "loop_event e = False"

definition loop_events :: "'v step list \<Rightarrow> 'v event list" where
  "loop_events ext = filter loop_event (map fst ext)"

fun escalated :: "'v event list \<Rightarrow> bool" where
  "escalated [] = True"
| "escalated (SlotWaitAndLoad i a c # es) = escalated es"
| "escalated (e # es) = False"

fun backing_off :: "(nat \<Rightarrow> bool) \<Rightarrow> nat \<Rightarrow> 'v event list \<Rightarrow> bool" where
  "backing_off backoff n [] = True"
| "backing_off backoff n [BackoffCall b] = (b = backoff n)"
| "backing_off backoff n (BackoffCall b # SlotLoad i c # es) =
     (b = backoff n \<and> (if b then escalated es else backing_off backoff (Suc n) es))"
| "backing_off backoff n es = False"

fun wait_with_backoff :: "(nat \<Rightarrow> bool) \<Rightarrow> 'v event list \<Rightarrow> bool" where
  "wait_with_backoff backoff [] = True"
| "wait_with_backoff backoff (SlotLoad i c # es) = backing_off backoff 0 es"
| "wait_with_backoff backoff (e # es) = False"

text \<open>
  \<open>shutdown_exit required_ticket es\<close>: the log \<open>es\<close> ends with the relaxed load of a raised
  finish flag and the sequentially consistent load of a \<open>tail\<close> that \<open>required_ticket\<close> has
  reached.
\<close>

fun shutdown_rev :: "u64 \<Rightarrow> 'v event list \<Rightarrow> bool" where
  "shutdown_rev required_ticket (TailLoad mo t # FinishLoad mo' f # rest) =
     (mo = memory_order_seq_cst \<and> mo' = memory_order_relaxed \<and> f \<and> required_ticket \<ge> t)"
| "shutdown_rev required_ticket es = False"

definition shutdown_exit :: "u64 \<Rightarrow> 'v event list \<Rightarrow> bool" where
  "shutdown_exit required_ticket es = shutdown_rev required_ticket (rev es)"

text \<open>
  What a step does to the ring: \<open>slot_updated i f q q'\<close> says that \<open>q'\<close> is \<open>q\<close> with slot
  \<open>i\<close> replaced by \<open>f\<close> of it, \<open>slot_holds i v q\<close> that slot \<open>i\<close> of \<open>q\<close> holds the value \<open>v\<close>,
  \<open>ring_kept\<close> that the step leaves every slot as it was, and \<open>unchanged\<close> that it leaves
  the whole queue as it was.
\<close>

definition slot_updated ::
  "nat \<Rightarrow> ('v Slot \<Rightarrow> 'v Slot) \<Rightarrow> 'v BoundedQueue \<Rightarrow> 'v BoundedQueue \<Rightarrow> bool" where
  "slot_updated i f q q' =
     (case ring q of
        None \<Rightarrow> False
      | Some r \<Rightarrow> i < length r \<and> q' = q\<lparr>ring := Some (r[i := f (r ! i)])\<rparr>)"

definition slot_holds :: "nat \<Rightarrow> 'v \<Rightarrow> 'v BoundedQueue \<Rightarrow> bool" where
  "slot_holds i v q = (case ring q of None \<Rightarrow> False | Some r \<Rightarrow> i < length r \<and> val (r ! i) = v)"

definition ring_kept :: "'v step \<Rightarrow> bool" where
  "ring_kept s = (ring (snd (snd s)) = ring (fst (snd s)))"

definition unchanged :: "'v step \<Rightarrow> bool" where
  "unchanged s = (snd (snd s) = fst (snd s))"

text \<open>
  A queue is \<open>live\<close> when its ring is the array of \<open>mask_ + 1\<close> slots, as the constructor
  leaves it and as it stays until it is moved from.
\<close>

definition live :: "'v BoundedQueue \<Rightarrow> bool" where
  "live q =
     (case ring q of
        None \<Rightarrow> False
      | Some r \<Rightarrow> mask q + 1 \<noteq> 0 \<and> length r = unat (mask q + 1))"

text \<open>
  \<open>ends_at c wait\<close>: the wait ends at the first load that returns \<open>c\<close>. Its last step is a
  load of the ticket, that load returns \<open>c\<close>, and no earlier load does. \<open>loop_end c cur ext
  matched\<close> says the same of a loop that is entered with the ticket \<open>cur\<close> in hand and logs
  \<open>ext\<close>: left on a match, its last load (or \<open>cur\<close>, when it has logged nothing) is \<open>c\<close>;
  otherwise \<open>c\<close> has not been seen.
\<close>

definition ends_at :: "u32 \<Rightarrow> 'v step list \<Rightarrow> bool" where
  "ends_at c wait =
     (wait \<noteq> [] \<and> observed (fst (last wait)) = [c] \<and> first_match c (tickets (map fst wait)))"

definition loop_end :: "u32 \<Rightarrow> u32 \<Rightarrow> 'v step list \<Rightarrow> bool \<Rightarrow> bool" where
  "loop_end c cur ext matched =
     (if matched then (if ext = [] then cur = c else observed (fst (last ext)) = [c])
      else c \<notin> set (cur # tickets (map fst ext)))"

text \<open>
  \<open>reads_ticket s\<close>: if the step \<open>s\<close> is a load of a ticket, the value it returns is the
  ticket that the slot has in the queue the step finds. \<open>loads_tickets w w'\<close>: the log of
  \<open>w'\<close> extends the log of \<open>w\<close> by steps of which this is true.
\<close>

definition ticket_is :: "nat \<Rightarrow> u32 \<Rightarrow> 'v BoundedQueue \<Rightarrow> bool" where
  "ticket_is i c q =
     (case ring q of None \<Rightarrow> False | Some r \<Rightarrow> i < length r \<and> ticket (r ! i) = c)"

fun reads_ticket :: "'v step \<Rightarrow> bool" where
  "reads_ticket (SlotLoad i c, q, q') = ticket_is i c q"
| "reads_ticket (SlotWaitAndLoad i a c, q, q') = ticket_is i c q"
| "reads_ticket s = True"

definition loads_tickets :: "'v world \<Rightarrow> 'v world \<Rightarrow> bool" where
  "loads_tickets w w' = (\<exists>ext. log w' = log w @ ext \<and> list_all reads_ticket ext)"

text \<open>
  \<open>in_ring i q\<close>: \<open>ring_[i]\<close> is a slot of \<open>q\<close>. \<open>proceeds i w r w'\<close> says of a part of a call
  that runs from \<open>w\<close> to the outcome \<open>r\<close> in \<open>w'\<close>: it is pending only where the schedule has
  ended; unless it faults, every step it has taken has used one entry of the schedule and
  added one entry to the log; where slot \<open>i\<close> is in the ring it does not fault and the slot
  stays in the ring; and every load it has logged has returned the ticket of its slot.
\<close>

definition in_ring :: "nat \<Rightarrow> 'v BoundedQueue \<Rightarrow> bool" where
  "in_ring i q = (case ring q of None \<Rightarrow> False | Some r \<Rightarrow> i < length r)"

definition proceeds :: "nat \<Rightarrow> 'v world \<Rightarrow> 'a res \<Rightarrow> 'v world \<Rightarrow> bool" where
  "proceeds i w r w' =
     ((r = Pending \<longrightarrow> sched w' = []) \<and>
      (r \<noteq> Fault \<longrightarrow> length (log w') + length (sched w') = length (log w) + length (sched w)) \<and>
      (in_ring i (queue w) \<longrightarrow> r \<noteq> Fault \<and> in_ring i (queue w')) \<and>
      loads_tickets w w')"

text \<open>
  Two properties of a part of a call, over every world it may run in and every outcome:
  \<open>silent\<close>, it adds no ticket load and no backoff call to the log; \<open>keeps_finish\<close>, it
  leaves a raised finish flag raised.
\<close>

definition silent :: "('v world \<Rightarrow> 'a res \<times> 'v world) \<Rightarrow> bool" where
  "silent m = (\<forall>w r w'. m w = (r, w') \<longrightarrow> loop_events (log w') = loop_events (log w))"

definition keeps_finish :: "('v world \<Rightarrow> 'a res \<times> 'v world) \<Rightarrow> bool" where
  "keeps_finish m = (\<forall>w r w'. finish (queue w) \<longrightarrow> m w = (r, w') \<longrightarrow> finish (queue w'))"

section \<open>Lemmas\<close>

subsection \<open>Sequencing and single steps\<close>

lemma thn_cases:
  assumes "thn m k w = (r, w')"
  obtains (pending) "m w = (Pending, w')" "r = Pending"
        | (fault) "m w = (Fault, w')" "r = Fault"
        | (go) a w1 where "m w = (Ret a, w1)" "k a w1 = (r, w')"
  using assms by (auto simp: thn_def split: prod.splits res.splits)

lemma thn_Ret:
  assumes "thn m k w = (Ret b, w')"
  obtains a w1 where "m w = (Ret a, w1)" "k a w1 = (Ret b, w')"
  using assms by (auto simp: thn_def split: prod.splits res.splits)

lemma atomic_stuck:
  "atomic f ev w = (r, w') \<Longrightarrow> r = Pending \<or> r = Fault \<Longrightarrow> log w' = log w"
  by (auto simp: atomic_def Let_def split: list.splits option.splits)

lemma atomic_Ret:
  assumes "atomic f ev w = (Ret a, w')"
  obtains os rest q' where "sched w = os # rest"
    "f (interfere os (queue w)) = Some (a, q')"
    "w' = w\<lparr>queue := q', sched := rest, log := log w @ [(ev a, interfere os (queue w), q')]\<rparr>"
  using assms by (auto simp: atomic_def Let_def split: list.splits option.splits)

lemma on_slot_read: "on_slot i (\<lambda>s. (g s, s)) q = Some (a, q') \<Longrightarrow> q' = q"
  by (auto simp: on_slot_def split: option.splits if_splits)

lemma atomic_slot_read:
  "atomic (on_slot i (\<lambda>s. (g s, s))) ev w = (Ret a, w') \<Longrightarrow>
     \<exists>q. log w' = log w @ [(ev a, q, q)]"
  by (auto simp: atomic_def Let_def split: list.splits option.splits dest: on_slot_read)

lemma atomic_read:
  "atomic (\<lambda>q. Some (g q, q)) ev w = (Ret a, w') \<Longrightarrow>
     \<exists>q. log w' = log w @ [(ev a, q, q)] \<and> a = g q"
  by (auto simp: atomic_def Let_def split: list.splits option.splits)

lemma slot_Load_Ret:
  "slot_Load i w = (Ret c, w') \<Longrightarrow> \<exists>q. log w' = log w @ [(SlotLoad i c, q, q)]"
  unfolding slot_Load_def by (rule atomic_slot_read)

lemma slot_WaitAndLoad_Ret:
  "slot_WaitAndLoad i v w = (Ret c, w') \<Longrightarrow> \<exists>q. log w' = log w @ [(SlotWaitAndLoad i v c, q, q)]"
  unfolding slot_WaitAndLoad_def by (rule atomic_slot_read)

lemma call_backoff_Ret:
  "call_backoff bk n w = (Ret b, w') \<Longrightarrow> \<exists>q. log w' = log w @ [(BackoffCall b, q, q)] \<and> b = bk n"
  unfolding call_backoff_def by (rule atomic_read [where g = "\<lambda>q. bk n"])

lemma Finished_Ret:
  "Finished w = (Ret f, w') \<Longrightarrow>
     \<exists>q. log w' = log w @ [(FinishLoad memory_order_relaxed f, q, q)] \<and> f = finish q"
  unfolding Finished_def finish_load_def by (rule atomic_read)

lemma tail_load_Ret:
  "tail_load mo w = (Ret t, w') \<Longrightarrow> \<exists>q. log w' = log w @ [(TailLoad mo t, q, q)] \<and> t = tail q"
  unfolding tail_load_def by (rule atomic_read)

lemma stuck:
  "slot_Load i w = (r1, w') \<Longrightarrow> r1 = Pending \<or> r1 = Fault \<Longrightarrow> log w' = log w"
  "slot_WaitAndLoad i v w = (r1, w') \<Longrightarrow> r1 = Pending \<or> r1 = Fault \<Longrightarrow> log w' = log w"
  "call_backoff bk n w = (r2, w') \<Longrightarrow> r2 = Pending \<or> r2 = Fault \<Longrightarrow> log w' = log w"
  "Finished w = (r2, w') \<Longrightarrow> r2 = Pending \<or> r2 = Fault \<Longrightarrow> log w' = log w"
  "tail_load mo w = (r3, w') \<Longrightarrow> r3 = Pending \<or> r3 = Fault \<Longrightarrow> log w' = log w"
  unfolding slot_Load_def slot_WaitAndLoad_def call_backoff_def Finished_def finish_load_def
    tail_load_def
  by (erule (1) atomic_stuck)+

lemma mask_perform [simp]: "mask (perform a q) = mask q"
  by (cases a) (auto simp: on_slot_def split: option.splits prod.splits)

lemma mask_interfere [simp]: "mask (interfere os q) = mask q"
  unfolding interfere_def by (induction os arbitrary: q) simp_all

lemma tail_fetch_add_Ret:
  assumes "tail_fetch_add mo w = (Ret t, w')"
  obtains q where "log w' = log w @ [(TailFetchAdd mo t, q, q\<lparr>tail := t + 1\<rparr>)]"
    "t = tail q" "mask (queue w') = mask (queue w)"
  using assms unfolding tail_fetch_add_def by (auto elim!: atomic_Ret)

lemma head_fetch_add_Ret:
  assumes "head_fetch_add mo w = (Ret h, w')"
  obtains q where "log w' = log w @ [(HeadFetchAdd mo h, q, q\<lparr>head := h + 1\<rparr>)]"
    "h = head q" "mask (queue w') = mask (queue w)"
  using assms unfolding head_fetch_add_def by (auto elim!: atomic_Ret)

lemma on_slot_Some:
  "on_slot i (\<lambda>s. (g s, f s)) q = Some (a, q') \<Longrightarrow>
     slot_updated i f q q' \<and> (\<exists>r. ring q = Some r \<and> i < length r \<and> a = g (r ! i))"
  by (auto simp: on_slot_def slot_updated_def split: option.splits if_splits)

lemma slot_assign_Ret:
  assumes "slot_assign i v w = (Ret u, w')"
  obtains q q' where "log w' = log w @ [(ValueAssign i v, q, q')]"
    "slot_updated i (\<lambda>s. s\<lparr>val := v\<rparr>) q q'"
  using assms unfolding slot_assign_def
  by (auto elim!: atomic_Ret dest!: on_slot_Some [where g = "\<lambda>s. ()"])

lemma slot_StoreAndWake_Ret:
  assumes "slot_StoreAndWake i t w = (Ret u, w')"
  obtains q where "log w' = log w @ [(SlotStoreAndWake i t, q, queue w')]"
    "slot_updated i (\<lambda>s. s\<lparr>ticket := t\<rparr>) q (queue w')"
  using assms unfolding slot_StoreAndWake_def StoreAndWake_def Store_def
  by (auto elim!: atomic_Ret dest!: on_slot_Some [where g = "\<lambda>s. ()"])

lemma slot_move_out_Ret:
  assumes "slot_move_out mv i w = (Ret v, w')"
  obtains q q' where "log w' = log w @ [(ValueMoveOut i v, q, q')]"
    "slot_holds i v q" "slot_updated i (\<lambda>s. s\<lparr>val := mv (val s)\<rparr>) q q'"
  using assms unfolding slot_move_out_def
  by (auto elim!: atomic_Ret dest!: on_slot_Some [where g = val] simp: slot_holds_def)

subsection \<open>Logs\<close>

lemma tickets_append [simp]: "tickets (xs @ ys) = tickets xs @ tickets ys"
  by (simp add: tickets_def)

lemma tickets_Nil [simp]: "tickets [] = []"
  by (simp add: tickets_def)

lemma tickets_Cons [simp]: "tickets (e # es) = observed e @ tickets es"
  by (simp add: tickets_def)

lemma tickets_silent [simp]:
  "tickets (TailFetchAdd mo t # es) = tickets es"
  "tickets (HeadFetchAdd mo t # es) = tickets es"
  "tickets [ValueAssign i v, SlotStoreAndWake j p] = []"
  "tickets [ValueMoveOut i v, SlotStoreAndWake j p] = []"
  by simp_all

lemma loop_events_simps [simp]:
  "loop_events [] = []"
  "loop_events ((e, b, a) # ext) = (if loop_event e then e # loop_events ext else loop_events ext)"
  by (simp_all add: loop_events_def)

lemma loop_events_append [simp]: "loop_events (xs @ ys) = loop_events xs @ loop_events ys"
  by (simp add: loop_events_def)

lemma shutdown_rev_iff:
  "shutdown_rev req xs =
     (\<exists>rest t. xs = TailLoad memory_order_seq_cst t # FinishLoad memory_order_relaxed True # rest \<and>
        req \<ge> t)"
  by (induction req xs rule: shutdown_rev.induct) auto

lemma shutdown_exit_iff:
  "shutdown_exit req es =
     (\<exists>pre t. es = pre @ [FinishLoad memory_order_relaxed True, TailLoad memory_order_seq_cst t] \<and>
        req \<ge> t)"
proof
  assume "shutdown_exit req es"
  then obtain t rest where
    "rev es = TailLoad memory_order_seq_cst t # FinishLoad memory_order_relaxed True # rest"
    "req \<ge> t"
    by (auto simp: shutdown_exit_def shutdown_rev_iff)
  then have "es = rev rest @ [FinishLoad memory_order_relaxed True, TailLoad memory_order_seq_cst t]"
    by (simp add: rev_swap)
  with \<open>req \<ge> t\<close>
  show "\<exists>pre t. es = pre @ [FinishLoad memory_order_relaxed True, TailLoad memory_order_seq_cst t] \<and>
          req \<ge> t"
    by blast
next
  assume "\<exists>pre t. es = pre @ [FinishLoad memory_order_relaxed True, TailLoad memory_order_seq_cst t] \<and>
            req \<ge> t"
  then show "shutdown_exit req es" by (auto simp: shutdown_exit_def)
qed

lemma shutdown_exit_append: "shutdown_exit req es \<Longrightarrow> shutdown_exit req (pre @ es)"
  unfolding shutdown_exit_iff by (metis append.assoc)

lemma wait_step_ring_kept: "list_all (wait_step i) ext \<Longrightarrow> list_all ring_kept ext"
  by (induction ext) (auto simp: wait_step_def ring_kept_def)

subsection \<open>The log of each wait loop\<close>

lemma WaitTail_loop_log:
  "WaitTail_loop i req cur w = (r, w') \<Longrightarrow>
     \<exists>ext. log w' = log w @ ext \<and> list_all (wait_step i) ext \<and>
       (r = Ret () \<longrightarrow> first_match (ucast req) (cur # tickets (map fst ext)))"
proof (induction i req cur w rule: WaitTail_loop.induct)
  case (1 slot req cur w)
  show ?case
  proof (cases "cur = ucast req")
    case True
    with "1.prems" have "w' = w" "r = Ret ()" by (simp_all add: WaitTail_loop.simps)
    with True show ?thesis by simp
  next
    case False
    with "1.prems" have
      "thn (slot_WaitAndLoad slot cur) (\<lambda>c. WaitTail_loop slot req c) w = (r, w')"
      by (simp add: WaitTail_loop.simps)
    then show ?thesis
    proof (cases rule: thn_cases)
      case pending
      then show ?thesis by (auto dest: stuck)
    next
      case fault
      then show ?thesis by (auto dest: stuck)
    next
      case (go a w1)
      from go(1) obtain q where l1: "log w1 = log w @ [(SlotWaitAndLoad slot cur a, q, q)]"
        by (blast dest: slot_WaitAndLoad_Ret)
      from "1.IH" [OF False go(1) go(2)] obtain ext where
        ext: "log w' = log w1 @ ext" "list_all (wait_step slot) ext"
          "r = Ret () \<longrightarrow> first_match (ucast req) (a # tickets (map fst ext))"
        by blast
      let ?ext = "(SlotWaitAndLoad slot cur a, q, q) # ext"
      have "log w' = log w @ ?ext" using l1 ext(1) by simp
      moreover have "list_all (wait_step slot) ?ext" using ext(2) by (simp add: wait_step_def)
      moreover have "r = Ret () \<longrightarrow> first_match (ucast req) (cur # tickets (map fst ?ext))"
        using ext(3) False by simp
      ultimately show ?thesis by blast
    qed
  qed
qed

lemma WaitTail_backoff_loop_log:
  "WaitTail_backoff_loop i req bk n waiting cur w = (r, w') \<Longrightarrow>
     \<exists>ext. log w' = log w @ ext \<and> list_all (wait_step i) ext \<and>
       (if waiting then escalated (loop_events ext) else backing_off bk n (loop_events ext)) \<and>
       (r = Ret () \<longrightarrow> first_match (ucast req) (cur # tickets (map fst ext)))"
proof (induction i req bk n waiting cur w rule: WaitTail_backoff_loop.induct)
  case (1 slot req bk n waiting cur w)
  show ?case
  proof (cases "cur = ucast req")
    case True
    with "1.prems" have "w' = w" "r = Ret ()" by (simp_all add: WaitTail_backoff_loop.simps)
    with True show ?thesis by simp
  next
    case False
    show ?thesis
    proof (cases waiting)
      case True
      with False "1.prems" have
        "thn (slot_WaitAndLoad slot cur)
           (\<lambda>c. WaitTail_backoff_loop slot req bk n waiting c) w = (r, w')"
        by (simp add: WaitTail_backoff_loop.simps)
      then show ?thesis
      proof (cases rule: thn_cases)
        case pending
        then show ?thesis using True by (auto dest: stuck)
      next
        case fault
        then show ?thesis using True by (auto dest: stuck)
      next
        case (go a w1)
        from go(1) obtain q where l1: "log w1 = log w @ [(SlotWaitAndLoad slot cur a, q, q)]"
          by (blast dest: slot_WaitAndLoad_Ret)
        from "1.IH"(1) [OF False True go(1) go(2)] True obtain ext where
          ext: "log w' = log w1 @ ext" "list_all (wait_step slot) ext"
            "escalated (loop_events ext)"
            "r = Ret () \<longrightarrow> first_match (ucast req) (a # tickets (map fst ext))"
          by auto
        let ?ext = "(SlotWaitAndLoad slot cur a, q, q) # ext"
        have "log w' = log w @ ?ext" using l1 ext(1) by simp
        moreover have "list_all (wait_step slot) ?ext" using ext(2) by (simp add: wait_step_def)
        moreover have "escalated (loop_events ?ext)" using ext(3) by simp
        moreover have "r = Ret () \<longrightarrow> first_match (ucast req) (cur # tickets (map fst ?ext))"
          using ext(4) False by simp
        ultimately show ?thesis using True by metis
      qed
    next
      case nw: False
      with False "1.prems" have
        "thn (call_backoff bk n)
           (\<lambda>b. thn (slot_Load slot)
              (\<lambda>c. WaitTail_backoff_loop slot req bk (Suc n) b c)) w = (r, w')"
        by (simp add: WaitTail_backoff_loop.simps)
      then show ?thesis
      proof (cases rule: thn_cases)
        case pending
        then show ?thesis using nw by (auto dest: stuck)
      next
        case fault
        then show ?thesis using nw by (auto dest: stuck)
      next
        case (go b w1)
        from go(1) obtain q where l1: "log w1 = log w @ [(BackoffCall b, q, q)]" and b: "b = bk n"
          by (blast dest: call_backoff_Ret)
        from go(2) show ?thesis
        proof (cases rule: thn_cases)
          case pending
          then have "log w' = log w @ [(BackoffCall b, q, q)]"
            using l1 by (auto dest: stuck)
          moreover have "list_all (wait_step slot) [(BackoffCall b, q, q)]"
            by (simp add: wait_step_def)
          moreover have "backing_off bk n (loop_events [(BackoffCall b, q, q)])"
            using b by simp
          ultimately show ?thesis using nw pending(2) by (metis res.distinct(1))
        next
          case fault
          then have "log w' = log w @ [(BackoffCall b, q, q)]"
            using l1 by (auto dest: stuck)
          moreover have "list_all (wait_step slot) [(BackoffCall b, q, q)]"
            by (simp add: wait_step_def)
          moreover have "backing_off bk n (loop_events [(BackoffCall b, q, q)])"
            using b by simp
          ultimately show ?thesis using nw fault(2) by (metis res.distinct(3))
        next
          case (go c w2)
          from go(1) obtain q' where l2: "log w2 = log w1 @ [(SlotLoad slot c, q', q')]"
            by (blast dest: slot_Load_Ret)
          from "1.IH"(2) [OF False nw \<open>call_backoff bk n w = (Ret b, w1)\<close> go(1) go(2)]
          obtain ext where
            ext: "log w' = log w2 @ ext" "list_all (wait_step slot) ext"
              "if b then escalated (loop_events ext)
               else backing_off bk (Suc n) (loop_events ext)"
              "r = Ret () \<longrightarrow> first_match (ucast req) (c # tickets (map fst ext))"
            by auto
          let ?ext = "(BackoffCall b, q, q) # (SlotLoad slot c, q', q') # ext"
          have "log w' = log w @ ?ext" using l1 l2 ext(1) by simp
          moreover have "list_all (wait_step slot) ?ext" using ext(2) by (simp add: wait_step_def)
          moreover have "backing_off bk n (loop_events ?ext)" using ext(3) b by simp
          moreover have "r = Ret () \<longrightarrow> first_match (ucast req) (cur # tickets (map fst ?ext))"
            using ext(4) False by simp
          ultimately show ?thesis using nw by metis
        qed
      qed
    qed
  qed
qed

lemma finish_return_log:
  "finish_return req w = (r, w') \<Longrightarrow>
     \<exists>ext. log w' = log w @ ext \<and> list_all (wait_step i) ext \<and> loop_events ext = [] \<and>
       tickets (map fst ext) = [] \<and> (r = Ret True \<longrightarrow> shutdown_exit req (map fst ext))"
proof -
  assume "finish_return req w = (r, w')"
  then have "thn Finished
       (\<lambda>f. if f then
               thn (tail_load memory_order_seq_cst) (\<lambda>tl. ret (req \<ge> tl))
             else ret False) w = (r, w')"
    by (simp add: finish_return_def)
  then show ?thesis
  proof (cases rule: thn_cases)
    case pending
    then show ?thesis by (auto dest: stuck)
  next
    case fault
    then show ?thesis by (auto dest: stuck)
  next
    case (go f w1)
    from go(1) obtain q where l1: "log w1 = log w @ [(FinishLoad memory_order_relaxed f, q, q)]"
      by (blast dest: Finished_Ret)
    show ?thesis
    proof (cases f)
      case False
      with go(2) have "w' = w1" "r = Ret False" by (simp_all add: ret_def)
      with l1 show ?thesis by (simp add: wait_step_def)
    next
      case True
      with go(2) have
        "thn (tail_load memory_order_seq_cst) (\<lambda>tl. ret (req \<ge> tl)) w1 = (r, w')"
        by simp
      then show ?thesis
      proof (cases rule: thn_cases)
        case pending
        then have "log w' = log w1" by (auto dest: stuck)
        with l1 pending(2) show ?thesis by (simp add: wait_step_def)
      next
        case fault
        then have "log w' = log w1" by (auto dest: stuck)
        with l1 fault(2) show ?thesis by (simp add: wait_step_def)
      next
        case (go t w2)
        from go(1) obtain q' where
          l2: "log w2 = log w1 @ [(TailLoad memory_order_seq_cst t, q', q')]"
          by (blast dest: tail_load_Ret)
        from go(2) have e: "w' = w2" "r = Ret (req \<ge> t)" by (simp_all add: ret_def)
        have "log w' = log w @ [(FinishLoad memory_order_relaxed f, q, q),
                (TailLoad memory_order_seq_cst t, q', q')]"
          using l1 l2 e by simp
        moreover have "r = Ret True \<longrightarrow> shutdown_exit req
            (map fst [(FinishLoad memory_order_relaxed f, q, q),
                (TailLoad memory_order_seq_cst t, q', q')])"
          using e True by (simp add: shutdown_exit_def)
        ultimately show ?thesis by (auto simp: wait_step_def)
      qed
    qed
  qed
qed

lemma WaitHead_loop_log:
  "WaitHead_loop i req cur w = (r, w') \<Longrightarrow>
     \<exists>ext. log w' = log w @ ext \<and> list_all (wait_step i) ext \<and>
       (r = Ret True \<longrightarrow> first_match (ucast req) (cur # tickets (map fst ext))) \<and>
       (r = Ret False \<longrightarrow> shutdown_exit req (map fst ext) \<and>
          ucast req \<notin> set (cur # tickets (map fst ext)))"
proof (induction i req cur w rule: WaitHead_loop.induct)
  case (1 slot req cur w)
  show ?case
  proof (cases "cur = ucast req")
    case True
    with "1.prems" have "w' = w" "r = Ret True" by (simp_all add: WaitHead_loop.simps)
    with True show ?thesis by simp
  next
    case False
    with "1.prems" have
      "thn (finish_return req)
          (\<lambda>stop w'. if stop then ret False w'
                      else thn (slot_WaitAndLoad slot cur)
                             (\<lambda>c. WaitHead_loop slot req c) w') w = (r, w')"
      by (simp add: WaitHead_loop.simps)
    then show ?thesis
    proof (cases rule: thn_cases)
      case pending
      with finish_return_log [OF pending(1), of slot] show ?thesis by auto
    next
      case fault
      with finish_return_log [OF fault(1), of slot] show ?thesis by auto
    next
      case (go stop w1)
      from finish_return_log [OF go(1), of slot] obtain e1 where
        e1: "log w1 = log w @ e1" "list_all (wait_step slot) e1" "loop_events e1 = []"
          "tickets (map fst e1) = []" "stop \<longrightarrow> shutdown_exit req (map fst e1)"
        by auto
      show ?thesis
      proof (cases stop)
        case True
        with go(2) have "w' = w1" "r = Ret False" by (simp_all add: ret_def)
        with e1 True False show ?thesis by auto
      next
        case ns: False
        with go(2) have
          "thn (slot_WaitAndLoad slot cur) (\<lambda>c. WaitHead_loop slot req c) w1 = (r, w')"
          by simp
        then show ?thesis
        proof (cases rule: thn_cases)
          case pending
          then have "log w' = log w1" by (auto dest: stuck)
          with e1 pending(2) show ?thesis by auto
        next
          case fault
          then have "log w' = log w1" by (auto dest: stuck)
          with e1 fault(2) show ?thesis by auto
        next
          case (go a w2)
          from go(1) obtain q where l2: "log w2 = log w1 @ [(SlotWaitAndLoad slot cur a, q, q)]"
            by (blast dest: slot_WaitAndLoad_Ret)
          from "1.IH" [OF False \<open>finish_return req w = (Ret stop, w1)\<close> ns go(1) go(2)]
          obtain ext where
            ext: "log w' = log w2 @ ext" "list_all (wait_step slot) ext"
              "r = Ret True \<longrightarrow> first_match (ucast req) (a # tickets (map fst ext))"
              "r = Ret False \<longrightarrow> shutdown_exit req (map fst ext) \<and>
                 ucast req \<notin> set (a # tickets (map fst ext))"
            by blast
          let ?ext = "e1 @ (SlotWaitAndLoad slot cur a, q, q) # ext"
          have "log w' = log w @ ?ext" using e1(1) l2 ext(1) by simp
          moreover have "list_all (wait_step slot) ?ext"
            using e1(2) ext(2) by (simp add: wait_step_def)
          moreover have "r = Ret True \<longrightarrow> first_match (ucast req) (cur # tickets (map fst ?ext))"
            using ext(3) e1(4) False by simp
          moreover have "r = Ret False \<longrightarrow> shutdown_exit req (map fst ?ext) \<and>
                 ucast req \<notin> set (cur # tickets (map fst ?ext))"
          proof
            assume rf: "r = Ret False"
            with ext(4) have "shutdown_exit req (map fst ext)" by simp
            then have "shutdown_exit req
                ((map fst e1 @ [SlotWaitAndLoad slot cur a]) @ map fst ext)"
              by (rule shutdown_exit_append)
            then show "shutdown_exit req (map fst ?ext) \<and>
                 ucast req \<notin> set (cur # tickets (map fst ?ext))"
              using rf ext(4) e1(4) False by simp
          qed
          ultimately show ?thesis by blast
        qed
      qed
    qed
  qed
qed

lemma WaitHead_backoff_loop_log:
  "WaitHead_backoff_loop i req bk n waiting cur w = (r, w') \<Longrightarrow>
     \<exists>ext. log w' = log w @ ext \<and> list_all (wait_step i) ext \<and>
       (if waiting then escalated (loop_events ext) else backing_off bk n (loop_events ext)) \<and>
       (r = Ret True \<longrightarrow> first_match (ucast req) (cur # tickets (map fst ext))) \<and>
       (r = Ret False \<longrightarrow> shutdown_exit req (map fst ext) \<and>
          ucast req \<notin> set (cur # tickets (map fst ext)))"
proof (induction i req bk n waiting cur w rule: WaitHead_backoff_loop.induct)
  case (1 slot req bk n waiting cur w)
  show ?case
  proof (cases "cur = ucast req")
    case True
    with "1.prems" have "w' = w" "r = Ret True" by (simp_all add: WaitHead_backoff_loop.simps)
    with True show ?thesis by simp
  next
    case False
    with "1.prems" have
      "thn (finish_return req)
          (\<lambda>stop w'.
             if stop then ret False w'
             else if waiting then
               thn (slot_WaitAndLoad slot cur)
                 (\<lambda>c. WaitHead_backoff_loop slot req bk n waiting c) w'
             else
               thn (call_backoff bk n)
                 (\<lambda>b. thn (slot_Load slot)
                    (\<lambda>c. WaitHead_backoff_loop slot req bk (Suc n) b c)) w') w = (r, w')"
      by (simp add: WaitHead_backoff_loop.simps)
    then show ?thesis
    proof (cases rule: thn_cases)
      case pending
      with finish_return_log [OF pending(1), of slot] show ?thesis by auto
    next
      case fault
      with finish_return_log [OF fault(1), of slot] show ?thesis by auto
    next
      case (go stop w1)
      note fr = \<open>finish_return req w = (Ret stop, w1)\<close>
      from finish_return_log [OF go(1), of slot] obtain e1 where
        e1: "log w1 = log w @ e1" "list_all (wait_step slot) e1" "loop_events e1 = []"
          "tickets (map fst e1) = []" "stop \<longrightarrow> shutdown_exit req (map fst e1)"
        by auto
      show ?thesis
      proof (cases stop)
        case True
        with go(2) have "w' = w1" "r = Ret False" by (simp_all add: ret_def)
        with e1 True False show ?thesis by auto
      next
        case ns: False
        show ?thesis
        proof (cases waiting)
          case True
          with ns go(2) have
            "thn (slot_WaitAndLoad slot cur)
               (\<lambda>c. WaitHead_backoff_loop slot req bk n waiting c) w1 = (r, w')"
            by simp
          then show ?thesis
          proof (cases rule: thn_cases)
            case pending
            then have "log w' = log w1" by (auto dest: stuck)
            with e1 pending(2) True show ?thesis by auto
          next
            case fault
            then have "log w' = log w1" by (auto dest: stuck)
            with e1 fault(2) True show ?thesis by auto
          next
            case (go a w2)
            from go(1) obtain q where
              l2: "log w2 = log w1 @ [(SlotWaitAndLoad slot cur a, q, q)]"
              by (blast dest: slot_WaitAndLoad_Ret)
            from "1.IH"(1) [OF False fr ns True go(1) go(2)] True
            obtain ext where
              ext: "log w' = log w2 @ ext" "list_all (wait_step slot) ext"
                "escalated (loop_events ext)"
                "r = Ret True \<longrightarrow> first_match (ucast req) (a # tickets (map fst ext))"
                "r = Ret False \<longrightarrow> shutdown_exit req (map fst ext) \<and>
                   ucast req \<notin> set (a # tickets (map fst ext))"
              by auto
            let ?ext = "e1 @ (SlotWaitAndLoad slot cur a, q, q) # ext"
            have "log w' = log w @ ?ext" using e1(1) l2 ext(1) by simp
            moreover have "list_all (wait_step slot) ?ext"
              using e1(2) ext(2) by (simp add: wait_step_def)
            moreover have "escalated (loop_events ?ext)" using e1(3) ext(3) by simp
            moreover have
              "r = Ret True \<longrightarrow> first_match (ucast req) (cur # tickets (map fst ?ext))"
              using ext(4) e1(4) False by simp
            moreover have "r = Ret False \<longrightarrow> shutdown_exit req (map fst ?ext) \<and>
                   ucast req \<notin> set (cur # tickets (map fst ?ext))"
            proof
              assume rf: "r = Ret False"
              with ext(5) have "shutdown_exit req (map fst ext)" by simp
              then have "shutdown_exit req
                  ((map fst e1 @ [SlotWaitAndLoad slot cur a]) @ map fst ext)"
                by (rule shutdown_exit_append)
              then show "shutdown_exit req (map fst ?ext) \<and>
                   ucast req \<notin> set (cur # tickets (map fst ?ext))"
                using rf ext(5) e1(4) False by simp
            qed
            ultimately show ?thesis using True by metis
          qed
        next
          case nw: False
          with ns go(2) have
            "thn (call_backoff bk n)
               (\<lambda>b. thn (slot_Load slot)
                  (\<lambda>c. WaitHead_backoff_loop slot req bk (Suc n) b c)) w1 = (r, w')"
            by simp
          then show ?thesis
          proof (cases rule: thn_cases)
            case pending
            then have "log w' = log w1" by (auto dest: stuck)
            with e1 pending(2) nw show ?thesis by auto
          next
            case fault
            then have "log w' = log w1" by (auto dest: stuck)
            with e1 fault(2) nw show ?thesis by auto
          next
            case (go b w2)
            note cb = \<open>call_backoff bk n w1 = (Ret b, w2)\<close>
            from go(1) obtain q where
              l2: "log w2 = log w1 @ [(BackoffCall b, q, q)]" and b: "b = bk n"
              by (blast dest: call_backoff_Ret)
            let ?e2 = "e1 @ [(BackoffCall b, q, q)]"
            have e2: "log w2 = log w @ ?e2" "list_all (wait_step slot) ?e2"
              "backing_off bk n (loop_events ?e2)"
              using e1 l2 b by (simp_all add: wait_step_def)
            from go(2) show ?thesis
            proof (cases rule: thn_cases)
              case pending
              then have "log w' = log w2" by (auto dest: stuck)
              with e2 pending(2) nw show ?thesis by (metis res.distinct(1))
            next
              case fault
              then have "log w' = log w2" by (auto dest: stuck)
              with e2 fault(2) nw show ?thesis by (metis res.distinct(3))
            next
              case (go c w3)
              from go(1) obtain q' where l3: "log w3 = log w2 @ [(SlotLoad slot c, q', q')]"
                by (blast dest: slot_Load_Ret)
              from "1.IH"(2) [OF False fr ns nw cb go(1) go(2)]
              obtain ext where
                ext: "log w' = log w3 @ ext" "list_all (wait_step slot) ext"
                  "if b then escalated (loop_events ext)
                   else backing_off bk (Suc n) (loop_events ext)"
                  "r = Ret True \<longrightarrow> first_match (ucast req) (c # tickets (map fst ext))"
                  "r = Ret False \<longrightarrow> shutdown_exit req (map fst ext) \<and>
                     ucast req \<notin> set (c # tickets (map fst ext))"
                by auto
              let ?ext = "e1 @ (BackoffCall b, q, q) # (SlotLoad slot c, q', q') # ext"
              have "log w' = log w @ ?ext" using e1(1) l2 l3 ext(1) by simp
              moreover have "list_all (wait_step slot) ?ext"
                using e1(2) ext(2) by (simp add: wait_step_def)
              moreover have "backing_off bk n (loop_events ?ext)"
                using e1(3) ext(3) b by simp
              moreover have
                "r = Ret True \<longrightarrow> first_match (ucast req) (cur # tickets (map fst ?ext))"
                using ext(4) e1(4) False by simp
              moreover have "r = Ret False \<longrightarrow> shutdown_exit req (map fst ?ext) \<and>
                     ucast req \<notin> set (cur # tickets (map fst ?ext))"
              proof
                assume rf: "r = Ret False"
                with ext(5) have "shutdown_exit req (map fst ext)" by simp
                then have "shutdown_exit req
                    ((map fst e1 @ [BackoffCall b, SlotLoad slot c]) @ map fst ext)"
                  by (rule shutdown_exit_append)
                then show "shutdown_exit req (map fst ?ext) \<and>
                     ucast req \<notin> set (cur # tickets (map fst ?ext))"
                  using rf ext(5) e1(4) False by simp
              qed
              ultimately show ?thesis using nw by metis
            qed
          qed
        qed
      qed
    qed
  qed
qed

lemma wait_tail_log:
  assumes "(case backoff of None \<Rightarrow> WaitTail i req | Some b \<Rightarrow> WaitTail_backoff i req b) w = (r, w')"
  shows "\<exists>ext. log w' = log w @ ext \<and> list_all (wait_step i) ext \<and>
       (\<forall>b. backoff = Some b \<longrightarrow> wait_with_backoff b (loop_events ext)) \<and>
       (r = Ret () \<longrightarrow> first_match (ucast req) (tickets (map fst ext)))"
proof (cases backoff)
  case None
  with assms have "thn (slot_Load i) (\<lambda>c. WaitTail_loop i req c) w = (r, w')"
    by (simp add: WaitTail_def)
  then show ?thesis
  proof (cases rule: thn_cases)
    case pending
    then show ?thesis using None by (auto dest: stuck)
  next
    case fault
    then show ?thesis using None by (auto dest: stuck)
  next
    case (go c w1)
    from go(1) obtain q where l1: "log w1 = log w @ [(SlotLoad i c, q, q)]"
      by (blast dest: slot_Load_Ret)
    from WaitTail_loop_log [OF go(2)] obtain ext where
      ext: "log w' = log w1 @ ext" "list_all (wait_step i) ext"
        "r = Ret () \<longrightarrow> first_match (ucast req) (c # tickets (map fst ext))"
      by blast
    let ?ext = "(SlotLoad i c, q, q) # ext"
    have "log w' = log w @ ?ext" using l1 ext(1) by simp
    moreover have "list_all (wait_step i) ?ext" using ext(2) by (simp add: wait_step_def)
    moreover have "r = Ret () \<longrightarrow> first_match (ucast req) (tickets (map fst ?ext))"
      using ext(3) by simp
    ultimately show ?thesis using None by blast
  qed
next
  case (Some b)
  with assms have
    "thn (slot_Load i) (\<lambda>c. WaitTail_backoff_loop i req b 0 False c) w = (r, w')"
    by (simp add: WaitTail_backoff_def)
  then show ?thesis
  proof (cases rule: thn_cases)
    case pending
    then show ?thesis by (auto dest: stuck)
  next
    case fault
    then show ?thesis by (auto dest: stuck)
  next
    case (go c w1)
    from go(1) obtain q where l1: "log w1 = log w @ [(SlotLoad i c, q, q)]"
      by (blast dest: slot_Load_Ret)
    from WaitTail_backoff_loop_log [OF go(2)] obtain ext where
      ext: "log w' = log w1 @ ext" "list_all (wait_step i) ext"
        "backing_off b 0 (loop_events ext)"
        "r = Ret () \<longrightarrow> first_match (ucast req) (c # tickets (map fst ext))"
      by auto
    let ?ext = "(SlotLoad i c, q, q) # ext"
    have "log w' = log w @ ?ext" using l1 ext(1) by simp
    moreover have "list_all (wait_step i) ?ext" using ext(2) by (simp add: wait_step_def)
    moreover have "wait_with_backoff b (loop_events ?ext)" using ext(3) by simp
    moreover have "r = Ret () \<longrightarrow> first_match (ucast req) (tickets (map fst ?ext))"
      using ext(4) by simp
    ultimately show ?thesis using Some by blast
  qed
qed

lemma wait_head_log:
  assumes "(case backoff of None \<Rightarrow> WaitHead i req | Some b \<Rightarrow> WaitHead_backoff i req b) w = (r, w')"
  shows "\<exists>ext. log w' = log w @ ext \<and> list_all (wait_step i) ext \<and>
       (\<forall>b. backoff = Some b \<longrightarrow> wait_with_backoff b (loop_events ext)) \<and>
       (r = Ret True \<longrightarrow> first_match (ucast req) (tickets (map fst ext))) \<and>
       (r = Ret False \<longrightarrow> shutdown_exit req (map fst ext) \<and>
          ucast req \<notin> set (tickets (map fst ext)))"
proof (cases backoff)
  case None
  with assms have "thn (slot_Load i) (\<lambda>c. WaitHead_loop i req c) w = (r, w')"
    by (simp add: WaitHead_def)
  then show ?thesis
  proof (cases rule: thn_cases)
    case pending
    then show ?thesis using None by (auto dest: stuck)
  next
    case fault
    then show ?thesis using None by (auto dest: stuck)
  next
    case (go c w1)
    from go(1) obtain q where l1: "log w1 = log w @ [(SlotLoad i c, q, q)]"
      by (blast dest: slot_Load_Ret)
    from WaitHead_loop_log [OF go(2)] obtain ext where
      ext: "log w' = log w1 @ ext" "list_all (wait_step i) ext"
        "r = Ret True \<longrightarrow> first_match (ucast req) (c # tickets (map fst ext))"
        "r = Ret False \<longrightarrow> shutdown_exit req (map fst ext) \<and>
           ucast req \<notin> set (c # tickets (map fst ext))"
      by blast
    let ?ext = "(SlotLoad i c, q, q) # ext"
    have "log w' = log w @ ?ext" using l1 ext(1) by simp
    moreover have "list_all (wait_step i) ?ext" using ext(2) by (simp add: wait_step_def)
    moreover have "r = Ret True \<longrightarrow> first_match (ucast req) (tickets (map fst ?ext))"
      using ext(3) by simp
    moreover have "r = Ret False \<longrightarrow> shutdown_exit req (map fst ?ext) \<and>
          ucast req \<notin> set (tickets (map fst ?ext))"
      using ext(4) shutdown_exit_append [of req "map fst ext" "[SlotLoad i c]"] by simp
    ultimately show ?thesis using None by blast
  qed
next
  case (Some b)
  with assms have
    "thn (slot_Load i) (\<lambda>c. WaitHead_backoff_loop i req b 0 False c) w = (r, w')"
    by (simp add: WaitHead_backoff_def)
  then show ?thesis
  proof (cases rule: thn_cases)
    case pending
    then show ?thesis by (auto dest: stuck)
  next
    case fault
    then show ?thesis by (auto dest: stuck)
  next
    case (go c w1)
    from go(1) obtain q where l1: "log w1 = log w @ [(SlotLoad i c, q, q)]"
      by (blast dest: slot_Load_Ret)
    from WaitHead_backoff_loop_log [OF go(2)] obtain ext where
      ext: "log w' = log w1 @ ext" "list_all (wait_step i) ext"
        "backing_off b 0 (loop_events ext)"
        "r = Ret True \<longrightarrow> first_match (ucast req) (c # tickets (map fst ext))"
        "r = Ret False \<longrightarrow> shutdown_exit req (map fst ext) \<and>
           ucast req \<notin> set (c # tickets (map fst ext))"
      by auto
    let ?ext = "(SlotLoad i c, q, q) # ext"
    have "log w' = log w @ ?ext" using l1 ext(1) by simp
    moreover have "list_all (wait_step i) ?ext" using ext(2) by (simp add: wait_step_def)
    moreover have "wait_with_backoff b (loop_events ?ext)" using ext(3) by simp
    moreover have "r = Ret True \<longrightarrow> first_match (ucast req) (tickets (map fst ?ext))"
      using ext(4) by simp
    moreover have "r = Ret False \<longrightarrow> shutdown_exit req (map fst ?ext) \<and>
          ucast req \<notin> set (tickets (map fst ?ext))"
      using ext(5) shutdown_exit_append [of req "map fst ext" "[SlotLoad i c]"] by simp
    ultimately show ?thesis using Some by blast
  qed
qed

subsection \<open>Truncation of a reservation to a ticket\<close>

lemma unat_ucast_down: "unat (ucast w :: u32) = unat w mod 2 ^ 32" for w :: u64
  by (simp add: unsigned_ucast_eq take_bit_eq_mod)

lemma unat_ucast_up: "unat (ucast m :: u64) = unat m" for m :: u32
proof -
  have "unat m < 2 ^ 32" using unsigned_less [of m] by simp
  then have "unat m < 2 ^ 64" by simp
  then show ?thesis by (simp add: unsigned_ucast_eq take_bit_eq_mod)
qed

lemma mod32_mod64: "n mod 2 ^ 64 mod 2 ^ 32 = n mod 2 ^ 32" for n :: nat
proof -
  have "(2::nat) ^ 32 dvd 2 ^ 64" by (rule le_imp_power_dvd) simp
  then show ?thesis by (rule mod_mod_cancel)
qed

lemma unat_ucast_succ: "unat (ucast (t + 1 :: u64) :: u32) = (unat t + 1) mod 2 ^ 32"
proof -
  have "unat (t + 1) = (unat t + 1) mod 2 ^ 64" by (simp add: unat_word_ariths)
  then show ?thesis by (simp only: unat_ucast_down mod32_mod64)
qed

lemma unat_ucast_wrap:
  "unat (ucast (h + ucast m + 1 :: u64) :: u32) = (unat h + (unat m + 1)) mod 2 ^ 32" for m :: u32
proof -
  have "unat (h + ucast m + 1) = (unat h + unat m + 1) mod 2 ^ 64"
    by (simp add: unat_word_ariths unat_ucast_up mod_simps)
  then show ?thesis by (simp only: unat_ucast_down mod32_mod64 add.assoc)
qed




subsection \<open>The log of a call that has returned\<close>

lemma Dequeue_unfold:
  assumes "Dequeue moved_from v backoff w = (Ret res, w')" and "log w = []"
  obtains q ok w2 wait slot where
    "slot = unat (head q AND ucast (mask (queue w)))"
    "log w2 =
       (HeadFetchAdd memory_order_relaxed (head q), q, q\<lparr>head := head q + 1\<rparr>) # wait"
    "list_all (wait_step slot) wait"
    "ok \<longrightarrow> first_match (ucast (head q + 1)) (tickets (map fst wait))"
    "\<not> ok \<longrightarrow> shutdown_exit (head q + 1) (map fst wait)"
    "(if \<not> ok then ret (False, v)
      else thn (slot_move_out moved_from slot)
             (\<lambda>v'. thn (WakeTail slot (ucast (head q + ucast (mask (queue w)) + 1)))
                (\<lambda>u. ret (True, v')))) w2 = (Ret res, w')"
proof -
  from assms(1) obtain h w1 where
    fa: "head_fetch_add memory_order_relaxed w = (Ret h, w1)" and
    rest: "(let slot = unat (h AND ucast (mask (queue w1))) in
            thn (case backoff of None \<Rightarrow> WaitHead slot (h + 1)
                 | Some b \<Rightarrow> WaitHead_backoff slot (h + 1) b)
              (\<lambda>ok. if \<not> ok then ret (False, v)
                   else thn (slot_move_out moved_from slot)
                          (\<lambda>v'. thn (WakeTail slot (ucast (h + ucast (mask (queue w1)) + 1)))
                             (\<lambda>u. ret (True, v')))) w1) = (Ret res, w')"
    unfolding Dequeue_def by (erule thn_Ret)
  from fa obtain q where
    l1: "log w1 = log w @ [(HeadFetchAdd memory_order_relaxed h, q, q\<lparr>head := h + 1\<rparr>)]" and
    h: "h = head q" and m: "mask (queue w1) = mask (queue w)"
    by (rule head_fetch_add_Ret)
  define slot where "slot = unat (h AND ucast (mask (queue w)))"
  from rest have
    "thn (case backoff of None \<Rightarrow> WaitHead slot (h + 1)
          | Some b \<Rightarrow> WaitHead_backoff slot (h + 1) b)
       (\<lambda>ok. if \<not> ok then ret (False, v)
            else thn (slot_move_out moved_from slot)
                   (\<lambda>v'. thn (WakeTail slot (ucast (h + ucast (mask (queue w)) + 1)))
                      (\<lambda>u. ret (True, v')))) w1 = (Ret res, w')"
    unfolding Let_def m slot_def .
  then obtain ok w2 where
    wt: "(case backoff of None \<Rightarrow> WaitHead slot (h + 1)
          | Some b \<Rightarrow> WaitHead_backoff slot (h + 1) b) w1 = (Ret ok, w2)" and
    r2: "(if \<not> ok then ret (False, v)
          else thn (slot_move_out moved_from slot)
                 (\<lambda>v'. thn (WakeTail slot (ucast (h + ucast (mask (queue w)) + 1)))
                    (\<lambda>u. ret (True, v')))) w2 = (Ret res, w')"
    by (rule thn_Ret)
  from wait_head_log [OF wt] obtain wait where
    l2: "log w2 = log w1 @ wait" and ws: "list_all (wait_step slot) wait" and
    fm: "ok \<longrightarrow> first_match (ucast (h + 1)) (tickets (map fst wait))" and
    se: "\<not> ok \<longrightarrow> shutdown_exit (h + 1) (map fst wait)"
    by (cases ok) auto
  have "slot = unat (head q AND ucast (mask (queue w)))"
    unfolding slot_def h ..
  moreover have "log w2 =
       (HeadFetchAdd memory_order_relaxed (head q), q, q\<lparr>head := head q + 1\<rparr>) # wait"
    using l1 l2 assms(2) h by simp
  moreover note ws
  moreover have "ok \<longrightarrow> first_match (ucast (head q + 1)) (tickets (map fst wait))"
    using fm unfolding h .
  moreover have "\<not> ok \<longrightarrow> shutdown_exit (head q + 1) (map fst wait)"
    using se unfolding h .
  moreover have "(if \<not> ok then ret (False, v)
      else thn (slot_move_out moved_from slot)
             (\<lambda>v'. thn (WakeTail slot (ucast (head q + ucast (mask (queue w)) + 1)))
                (\<lambda>u. ret (True, v')))) w2 = (Ret res, w')"
    using r2 unfolding h .
  ultimately show thesis by (rule that)
qed


lemma Dequeue_returned_false:
  assumes "Dequeue moved_from v backoff w = (Ret (False, v'), w')" and "log w = []"
  obtains q wait slot where
    "v' = v"
    "slot = unat (head q AND ucast (mask (queue w)))"
    "log w' =
       (HeadFetchAdd memory_order_relaxed (head q), q, q\<lparr>head := head q + 1\<rparr>) # wait"
    "list_all (wait_step slot) wait"
    "shutdown_exit (head q + 1) (map fst wait)"
proof -
  from assms obtain q ok w2 wait slot where
    slot: "slot = unat (head q AND ucast (mask (queue w)))" and
    l2: "log w2 =
       (HeadFetchAdd memory_order_relaxed (head q), q, q\<lparr>head := head q + 1\<rparr>) # wait" and
    ws: "list_all (wait_step slot) wait" and
    se: "\<not> ok \<longrightarrow> shutdown_exit (head q + 1) (map fst wait)" and
    r2: "(if \<not> ok then ret (False, v)
          else thn (slot_move_out moved_from slot)
                 (\<lambda>v'. thn (WakeTail slot (ucast (head q + ucast (mask (queue w)) + 1)))
                    (\<lambda>u. ret (True, v')))) w2 = (Ret (False, v'), w')"
    by (rule Dequeue_unfold)
  have nok: "\<not> ok"
  proof
    assume ok
    with r2 have
      "thn (slot_move_out moved_from slot)
         (\<lambda>v'. thn (WakeTail slot (ucast (head q + ucast (mask (queue w)) + 1)))
            (\<lambda>u. ret (True, v'))) w2 = (Ret (False, v'), w')"
      by simp
    then show False by (auto elim!: thn_Ret simp: ret_def)
  qed
  with r2 have e: "v' = v" "w' = w2" by (simp_all add: ret_def)
  have l: "log w' =
      (HeadFetchAdd memory_order_relaxed (head q), q, q\<lparr>head := head q + 1\<rparr>) # wait"
    using l2 e by simp
  from e(1) slot l ws se nok show thesis by (intro that) simp_all
qed

subsection \<open>Backoff calls of a whole call\<close>

lemma silentD: "silent m \<Longrightarrow> m w = (r, w') \<Longrightarrow> loop_events (log w') = loop_events (log w)"
  by (simp add: silent_def)

lemma silent_atomic: "(\<And>a. \<not> loop_event (ev a)) \<Longrightarrow> silent (atomic f ev)"
  by (auto simp: silent_def atomic_def Let_def split: list.splits option.splits)

lemma silent_ret: "silent (ret a)"
  by (simp add: silent_def ret_def)

lemma silent_thn: "silent m \<Longrightarrow> (\<And>a. silent (k a)) \<Longrightarrow> silent (thn m k)"
  unfolding silent_def
  by (auto simp: thn_def split: prod.splits res.splits)

lemma silent_ops:
  "silent (tail_fetch_add mo)" "silent (head_fetch_add mo)" "silent (slot_assign i v)"
  "silent (slot_StoreAndWake i t)" "silent (slot_move_out mv i)"
  unfolding tail_fetch_add_def head_fetch_add_def slot_assign_def slot_StoreAndWake_def
    slot_move_out_def
  by (rule silent_atomic, simp)+

lemma Enqueue_backoff:
  assumes "Enqueue v (Some b) w = (r, w')" and "log w = []"
  shows "wait_with_backoff b (loop_events (log w'))"
  using assms(1) unfolding Enqueue_def
proof (cases rule: thn_cases)
  case pending
  then show ?thesis using silentD [OF silent_ops(1) pending(1)] assms(2) by simp
next
  case fault
  then show ?thesis using silentD [OF silent_ops(1) fault(1)] assms(2) by simp
next
  case (go t w1)
  from silentD [OF silent_ops(1) go(1)] assms(2) have l1: "loop_events (log w1) = []" by simp
  define slot where "slot = unat (t AND ucast (mask (queue w1)))"
  from go(2) have
    "thn (WaitTail_backoff slot t b)
       (\<lambda>u. thn (slot_assign slot v) (\<lambda>u. WakeHead slot (ucast (t + 1)))) w1 = (r, w')"
    unfolding slot_def by (simp add: Let_def)
  then show ?thesis
  proof (cases rule: thn_cases)
    case pending
    then have "(case Some b of None \<Rightarrow> WaitTail slot t | Some b \<Rightarrow> WaitTail_backoff slot t b) w1
        = (Pending, w')" by simp
    from wait_tail_log [OF this] l1 show ?thesis by auto
  next
    case fault
    then have "(case Some b of None \<Rightarrow> WaitTail slot t | Some b \<Rightarrow> WaitTail_backoff slot t b) w1
        = (Fault, w')" by simp
    from wait_tail_log [OF this] l1 show ?thesis by auto
  next
    case (go u w2)
    then have "(case Some b of None \<Rightarrow> WaitTail slot t | Some b \<Rightarrow> WaitTail_backoff slot t b) w1
        = (Ret u, w2)" by simp
    from wait_tail_log [OF this] l1 have "wait_with_backoff b (loop_events (log w2))" by auto
    moreover have "silent (thn (slot_assign slot v) (\<lambda>u. WakeHead slot (ucast (t + 1))))"
      unfolding WakeHead_def by (intro silent_thn silent_ops)
    from silentD [OF this go(2)] have "loop_events (log w') = loop_events (log w2)" .
    ultimately show ?thesis by simp
  qed
qed

lemma Dequeue_backoff:
  assumes "Dequeue moved_from v (Some b) w = (r, w')" and "log w = []"
  shows "wait_with_backoff b (loop_events (log w'))"
  using assms(1) unfolding Dequeue_def
proof (cases rule: thn_cases)
  case pending
  then show ?thesis using silentD [OF silent_ops(2) pending(1)] assms(2) by simp
next
  case fault
  then show ?thesis using silentD [OF silent_ops(2) fault(1)] assms(2) by simp
next
  case (go h w1)
  from silentD [OF silent_ops(2) go(1)] assms(2) have l1: "loop_events (log w1) = []" by simp
  define slot where "slot = unat (h AND ucast (mask (queue w1)))"
  define nt :: u32 where "nt = ucast (h + ucast (mask (queue w1)) + 1)"
  from go(2) have
    "thn (WaitHead_backoff slot (h + 1) b)
       (\<lambda>ok. if \<not> ok then ret (False, v)
            else thn (slot_move_out moved_from slot)
                   (\<lambda>v'. thn (WakeTail slot nt) (\<lambda>u. ret (True, v')))) w1 = (r, w')"
    unfolding slot_def nt_def Let_def by simp
  then show ?thesis
  proof (cases rule: thn_cases)
    case pending
    then have "(case Some b of None \<Rightarrow> WaitHead slot (h + 1)
         | Some b \<Rightarrow> WaitHead_backoff slot (h + 1) b) w1 = (Pending, w')" by simp
    from wait_head_log [OF this] l1 show ?thesis by auto
  next
    case fault
    then have "(case Some b of None \<Rightarrow> WaitHead slot (h + 1)
         | Some b \<Rightarrow> WaitHead_backoff slot (h + 1) b) w1 = (Fault, w')" by simp
    from wait_head_log [OF this] l1 show ?thesis by auto
  next
    case (go ok w2)
    then have "(case Some b of None \<Rightarrow> WaitHead slot (h + 1)
         | Some b \<Rightarrow> WaitHead_backoff slot (h + 1) b) w1 = (Ret ok, w2)" by simp
    from wait_head_log [OF this] l1 have "wait_with_backoff b (loop_events (log w2))" by auto
    moreover have "silent (if \<not> ok then ret (False, v)
            else thn (slot_move_out moved_from slot)
                   (\<lambda>v'. thn (WakeTail slot nt) (\<lambda>u. ret (True, v'))))"
      unfolding WakeTail_def by (auto intro!: silent_thn silent_ops silent_ret)
    from silentD [OF this go(2)] have "loop_events (log w') = loop_events (log w2)" .
    ultimately show ?thesis by simp
  qed
qed

subsection \<open>The finish flag stays raised\<close>

lemma keeps_finishD:
  "keeps_finish m \<Longrightarrow> finish (queue w) \<Longrightarrow> m w = (r, w') \<Longrightarrow> finish (queue w')"
  unfolding keeps_finish_def by blast

lemma on_slot_finish: "on_slot i m q = Some (a, q') \<Longrightarrow> finish q' = finish q"
  by (auto simp: on_slot_def split: option.splits if_splits prod.splits)

lemma finish_perform: "finish q \<Longrightarrow> finish (perform a q)"
  by (cases a) (auto split: option.splits dest: on_slot_finish)

lemma finish_interfere: "finish q \<Longrightarrow> finish (interfere os q)"
  unfolding interfere_def by (induction os arbitrary: q) (simp_all add: finish_perform)

lemma keeps_finish_atomic:
  assumes "\<And>q a q'. finish q \<Longrightarrow> f q = Some (a, q') \<Longrightarrow> finish q'"
  shows "keeps_finish (atomic f ev)"
  unfolding keeps_finish_def
proof (intro allI impI)
  fix w :: "'a world" and r w'
  assume fin: "finish (queue w)" and run: "atomic f ev w = (r, w')"
  show "finish (queue w')"
  proof (cases "sched w")
    case Nil
    with run fin show ?thesis by (simp add: atomic_def)
  next
    case (Cons os rest)
    have fi: "finish (interfere os (queue w))" using fin by (rule finish_interfere)
    show ?thesis
    proof (cases "f (interfere os (queue w))")
      case None
      with run Cons fi show ?thesis by (auto simp: atomic_def Let_def)
    next
      case (Some p)
      obtain a q' where p: "p = (a, q')" by (cases p)
      from assms [OF fi] Some p have "finish q'" by simp
      with run Cons Some p show ?thesis by (auto simp: atomic_def Let_def)
    qed
  qed
qed

lemma keeps_finish_ret: "keeps_finish (ret a)"
  by (simp add: keeps_finish_def ret_def)

lemma keeps_finish_thn:
  assumes "keeps_finish m" and "\<And>a. keeps_finish (k a)"
  shows "keeps_finish (thn m k)"
  unfolding keeps_finish_def
proof (intro allI impI)
  fix w r w'
  assume fin: "finish (queue w)" and run: "thn m k w = (r, w')"
  from run show "finish (queue w')"
  proof (cases rule: thn_cases)
    case pending
    show ?thesis by (rule keeps_finishD [OF assms(1) fin pending(1)])
  next
    case fault
    show ?thesis by (rule keeps_finishD [OF assms(1) fin fault(1)])
  next
    case (go a w1)
    have "finish (queue w1)" by (rule keeps_finishD [OF assms(1) fin go(1)])
    then show ?thesis by (rule keeps_finishD [OF assms(2) _ go(2)])
  qed
qed

lemma keeps_finish_on_slot: "keeps_finish (atomic (on_slot i m) ev)"
proof (rule keeps_finish_atomic)
  fix q a q'
  assume "finish q" and "on_slot i m q = Some (a, q')"
  then show "finish q'" using on_slot_finish [of i m q a q'] by simp
qed

lemma keeps_finish_ops:
  "keeps_finish (tail_fetch_add mo)" "keeps_finish (head_fetch_add mo)"
  "keeps_finish (tail_load mo)" "keeps_finish (Finished :: 'v world \<Rightarrow> bool res \<times> 'v world)"
  "keeps_finish (finish_store True mo)"
  "keeps_finish (slot_Load i)" "keeps_finish (slot_WaitAndLoad i c)"
  "keeps_finish (slot_StoreAndWake i c)" "keeps_finish (slot_Wake i)"
  "keeps_finish (slot_assign i v)" "keeps_finish (slot_move_out mv i)"
  "keeps_finish (call_backoff b n)"
proof -
  show "keeps_finish (tail_fetch_add mo)"
    unfolding tail_fetch_add_def by (rule keeps_finish_atomic) auto
  show "keeps_finish (head_fetch_add mo)"
    unfolding head_fetch_add_def by (rule keeps_finish_atomic) auto
  show "keeps_finish (tail_load mo)"
    unfolding tail_load_def by (rule keeps_finish_atomic) auto
  show "keeps_finish (Finished :: 'v world \<Rightarrow> bool res \<times> 'v world)"
    unfolding Finished_def finish_load_def by (rule keeps_finish_atomic) auto
  show "keeps_finish (finish_store True mo)"
    unfolding finish_store_def by (rule keeps_finish_atomic) auto
  show "keeps_finish (slot_Load i)"
    unfolding slot_Load_def by (rule keeps_finish_on_slot)
  show "keeps_finish (slot_WaitAndLoad i c)"
    unfolding slot_WaitAndLoad_def by (rule keeps_finish_on_slot)
  show "keeps_finish (slot_StoreAndWake i c)"
    unfolding slot_StoreAndWake_def by (rule keeps_finish_on_slot)
  show "keeps_finish (slot_Wake i)"
    unfolding slot_Wake_def by (rule keeps_finish_on_slot)
  show "keeps_finish (slot_assign i v)"
    unfolding slot_assign_def by (rule keeps_finish_on_slot)
  show "keeps_finish (slot_move_out mv i)"
    unfolding slot_move_out_def by (rule keeps_finish_on_slot)
  show "keeps_finish (call_backoff b n)"
    unfolding call_backoff_def by (rule keeps_finish_atomic) auto
qed

lemma keeps_finish_finish_return: "keeps_finish (finish_return req)"
  unfolding finish_return_def
  by (auto intro!: keeps_finish_thn keeps_finish_ops keeps_finish_ret)

lemma WaitTail_loop_finish:
  "finish (queue w) \<Longrightarrow> WaitTail_loop i req cur w = (r, w') \<Longrightarrow> finish (queue w')"
proof (induction i req cur w rule: WaitTail_loop.induct)
  case (1 slot req cur w)
  show ?case
  proof (cases "cur = ucast req")
    case True
    with "1.prems" show ?thesis by (simp add: WaitTail_loop.simps)
  next
    case False
    with "1.prems" have
      "thn (slot_WaitAndLoad slot cur) (\<lambda>c. WaitTail_loop slot req c) w = (r, w')"
      by (simp add: WaitTail_loop.simps)
    then show ?thesis
    proof (cases rule: thn_cases)
      case pending
      show ?thesis by (rule keeps_finishD [OF keeps_finish_ops(7) "1.prems"(1) pending(1)])
    next
      case fault
      show ?thesis by (rule keeps_finishD [OF keeps_finish_ops(7) "1.prems"(1) fault(1)])
    next
      case (go a w1)
      have f1: "finish (queue w1)"
        by (rule keeps_finishD [OF keeps_finish_ops(7) "1.prems"(1) go(1)])
      show ?thesis by (rule "1.IH" [OF False go(1) f1 go(2)])
    qed
  qed
qed

lemma WaitTail_backoff_loop_finish:
  "finish (queue w) \<Longrightarrow> WaitTail_backoff_loop i req bk n waiting cur w = (r, w') \<Longrightarrow>
     finish (queue w')"
proof (induction i req bk n waiting cur w rule: WaitTail_backoff_loop.induct)
  case (1 slot req bk n waiting cur w)
  note fin = "1.prems"(1)
  show ?case
  proof (cases "cur = ucast req")
    case True
    with "1.prems" show ?thesis by (simp add: WaitTail_backoff_loop.simps)
  next
    case False
    show ?thesis
    proof (cases waiting)
      case True
      with False "1.prems" have
        "thn (slot_WaitAndLoad slot cur)
           (\<lambda>c. WaitTail_backoff_loop slot req bk n waiting c) w = (r, w')"
        by (simp add: WaitTail_backoff_loop.simps)
      then show ?thesis
      proof (cases rule: thn_cases)
        case pending
        show ?thesis by (rule keeps_finishD [OF keeps_finish_ops(7) fin pending(1)])
      next
        case fault
        show ?thesis by (rule keeps_finishD [OF keeps_finish_ops(7) fin fault(1)])
      next
        case (go a w1)
        have f1: "finish (queue w1)" by (rule keeps_finishD [OF keeps_finish_ops(7) fin go(1)])
        show ?thesis by (rule "1.IH"(1) [OF False True go(1) f1 go(2)])
      qed
    next
      case nw: False
      with False "1.prems" have
        "thn (call_backoff bk n)
           (\<lambda>b. thn (slot_Load slot)
              (\<lambda>c. WaitTail_backoff_loop slot req bk (Suc n) b c)) w = (r, w')"
        by (simp add: WaitTail_backoff_loop.simps)
      then show ?thesis
      proof (cases rule: thn_cases)
        case pending
        show ?thesis by (rule keeps_finishD [OF keeps_finish_ops(12) fin pending(1)])
      next
        case fault
        show ?thesis by (rule keeps_finishD [OF keeps_finish_ops(12) fin fault(1)])
      next
        case (go b w1)
        note cb = \<open>call_backoff bk n w = (Ret b, w1)\<close>
        have f1: "finish (queue w1)" by (rule keeps_finishD [OF keeps_finish_ops(12) fin go(1)])
        from go(2) show ?thesis
        proof (cases rule: thn_cases)
          case pending
          show ?thesis by (rule keeps_finishD [OF keeps_finish_ops(6) f1 pending(1)])
        next
          case fault
          show ?thesis by (rule keeps_finishD [OF keeps_finish_ops(6) f1 fault(1)])
        next
          case (go c w2)
          have f2: "finish (queue w2)" by (rule keeps_finishD [OF keeps_finish_ops(6) f1 go(1)])
          show ?thesis by (rule "1.IH"(2) [OF False nw cb go(1) f2 go(2)])
        qed
      qed
    qed
  qed
qed

lemma WaitHead_loop_finish:
  "finish (queue w) \<Longrightarrow> WaitHead_loop i req cur w = (r, w') \<Longrightarrow> finish (queue w')"
proof (induction i req cur w rule: WaitHead_loop.induct)
  case (1 slot req cur w)
  note fin = "1.prems"(1)
  show ?case
  proof (cases "cur = ucast req")
    case True
    with "1.prems" show ?thesis by (simp add: WaitHead_loop.simps)
  next
    case False
    with "1.prems" have
      "thn (finish_return req)
          (\<lambda>stop w'. if stop then ret False w'
                      else thn (slot_WaitAndLoad slot cur)
                             (\<lambda>c. WaitHead_loop slot req c) w') w = (r, w')"
      by (simp add: WaitHead_loop.simps)
    then show ?thesis
    proof (cases rule: thn_cases)
      case pending
      show ?thesis by (rule keeps_finishD [OF keeps_finish_finish_return fin pending(1)])
    next
      case fault
      show ?thesis by (rule keeps_finishD [OF keeps_finish_finish_return fin fault(1)])
    next
      case (go stop w1)
      note fr = \<open>finish_return req w = (Ret stop, w1)\<close>
      have f1: "finish (queue w1)"
        by (rule keeps_finishD [OF keeps_finish_finish_return fin go(1)])
      show ?thesis
      proof (cases stop)
        case True
        with go(2) f1 show ?thesis by (simp add: ret_def)
      next
        case ns: False
        with go(2) have
          "thn (slot_WaitAndLoad slot cur) (\<lambda>c. WaitHead_loop slot req c) w1 = (r, w')"
          by simp
        then show ?thesis
        proof (cases rule: thn_cases)
          case pending
          show ?thesis by (rule keeps_finishD [OF keeps_finish_ops(7) f1 pending(1)])
        next
          case fault
          show ?thesis by (rule keeps_finishD [OF keeps_finish_ops(7) f1 fault(1)])
        next
          case (go a w2)
          have f2: "finish (queue w2)" by (rule keeps_finishD [OF keeps_finish_ops(7) f1 go(1)])
          show ?thesis by (rule "1.IH" [OF False fr ns go(1) f2 go(2)])
        qed
      qed
    qed
  qed
qed

lemma WaitHead_backoff_loop_finish:
  "finish (queue w) \<Longrightarrow> WaitHead_backoff_loop i req bk n waiting cur w = (r, w') \<Longrightarrow>
     finish (queue w')"
proof (induction i req bk n waiting cur w rule: WaitHead_backoff_loop.induct)
  case (1 slot req bk n waiting cur w)
  note fin = "1.prems"(1)
  show ?case
  proof (cases "cur = ucast req")
    case True
    with "1.prems" show ?thesis by (simp add: WaitHead_backoff_loop.simps)
  next
    case False
    with "1.prems" have
      "thn (finish_return req)
          (\<lambda>stop w'.
             if stop then ret False w'
             else if waiting then
               thn (slot_WaitAndLoad slot cur)
                 (\<lambda>c. WaitHead_backoff_loop slot req bk n waiting c) w'
             else
               thn (call_backoff bk n)
                 (\<lambda>b. thn (slot_Load slot)
                    (\<lambda>c. WaitHead_backoff_loop slot req bk (Suc n) b c)) w') w = (r, w')"
      by (simp add: WaitHead_backoff_loop.simps)
    then show ?thesis
    proof (cases rule: thn_cases)
      case pending
      show ?thesis by (rule keeps_finishD [OF keeps_finish_finish_return fin pending(1)])
    next
      case fault
      show ?thesis by (rule keeps_finishD [OF keeps_finish_finish_return fin fault(1)])
    next
      case (go stop w1)
      note fr = \<open>finish_return req w = (Ret stop, w1)\<close>
      have f1: "finish (queue w1)"
        by (rule keeps_finishD [OF keeps_finish_finish_return fin go(1)])
      show ?thesis
      proof (cases stop)
        case True
        with go(2) f1 show ?thesis by (simp add: ret_def)
      next
        case ns: False
        show ?thesis
        proof (cases waiting)
          case True
          with ns go(2) have
            "thn (slot_WaitAndLoad slot cur)
               (\<lambda>c. WaitHead_backoff_loop slot req bk n waiting c) w1 = (r, w')"
            by simp
          then show ?thesis
          proof (cases rule: thn_cases)
            case pending
            show ?thesis by (rule keeps_finishD [OF keeps_finish_ops(7) f1 pending(1)])
          next
            case fault
            show ?thesis by (rule keeps_finishD [OF keeps_finish_ops(7) f1 fault(1)])
          next
            case (go a w2)
            have f2: "finish (queue w2)"
              by (rule keeps_finishD [OF keeps_finish_ops(7) f1 go(1)])
            show ?thesis by (rule "1.IH"(1) [OF False fr ns True go(1) f2 go(2)])
          qed
        next
          case nw: False
          with ns go(2) have
            "thn (call_backoff bk n)
               (\<lambda>b. thn (slot_Load slot)
                  (\<lambda>c. WaitHead_backoff_loop slot req bk (Suc n) b c)) w1 = (r, w')"
            by simp
          then show ?thesis
          proof (cases rule: thn_cases)
            case pending
            show ?thesis by (rule keeps_finishD [OF keeps_finish_ops(12) f1 pending(1)])
          next
            case fault
            show ?thesis by (rule keeps_finishD [OF keeps_finish_ops(12) f1 fault(1)])
          next
            case (go b w2)
            note cb = \<open>call_backoff bk n w1 = (Ret b, w2)\<close>
            have f2: "finish (queue w2)"
              by (rule keeps_finishD [OF keeps_finish_ops(12) f1 go(1)])
            from go(2) show ?thesis
            proof (cases rule: thn_cases)
              case pending
              show ?thesis by (rule keeps_finishD [OF keeps_finish_ops(6) f2 pending(1)])
            next
              case fault
              show ?thesis by (rule keeps_finishD [OF keeps_finish_ops(6) f2 fault(1)])
            next
              case (go c w3)
              have f3: "finish (queue w3)"
                by (rule keeps_finishD [OF keeps_finish_ops(6) f2 go(1)])
              show ?thesis by (rule "1.IH"(2) [OF False fr ns nw cb go(1) f3 go(2)])
            qed
          qed
        qed
      qed
    qed
  qed
qed

lemma wake_slots_finish:
  "finish (queue w) \<Longrightarrow> wake_slots i sz w = (r, w') \<Longrightarrow> finish (queue w')"
proof (induction i sz w rule: wake_slots.induct)
  case (1 i sz w)
  note fin = "1.prems"(1)
  show ?case
  proof (cases "i < sz")
    case False
    with "1.prems" show ?thesis by (simp add: wake_slots.simps)
  next
    case True
    with "1.prems" have
      "thn (slot_Wake (unat i)) (\<lambda>u. wake_slots (i + 1) sz) w = (r, w')"
      by (simp add: wake_slots.simps)
    then show ?thesis
    proof (cases rule: thn_cases)
      case pending
      show ?thesis by (rule keeps_finishD [OF keeps_finish_ops(9) fin pending(1)])
    next
      case fault
      show ?thesis by (rule keeps_finishD [OF keeps_finish_ops(9) fin fault(1)])
    next
      case (go u w1)
      have f1: "finish (queue w1)" by (rule keeps_finishD [OF keeps_finish_ops(9) fin go(1)])
      show ?thesis by (rule "1.IH" [OF True go(1) f1 go(2)])
    qed
  qed
qed

lemma keeps_finish_loops:
  "keeps_finish (WaitTail i req)" "keeps_finish (WaitTail_backoff i req bk)"
  "keeps_finish (WaitHead i req)" "keeps_finish (WaitHead_backoff i req bk)"
  "keeps_finish (wake_slots j sz)"
proof -
  have a: "keeps_finish (WaitTail_loop i req c)" for c
    unfolding keeps_finish_def using WaitTail_loop_finish by blast
  have b: "keeps_finish (WaitTail_backoff_loop i req bk n wt c)" for n wt c
    unfolding keeps_finish_def using WaitTail_backoff_loop_finish by blast
  have c: "keeps_finish (WaitHead_loop i req c)" for c
    unfolding keeps_finish_def using WaitHead_loop_finish by blast
  have d: "keeps_finish (WaitHead_backoff_loop i req bk n wt c)" for n wt c
    unfolding keeps_finish_def using WaitHead_backoff_loop_finish by blast
  show "keeps_finish (WaitTail i req)"
    unfolding WaitTail_def by (intro keeps_finish_thn keeps_finish_ops a)
  show "keeps_finish (WaitTail_backoff i req bk)"
    unfolding WaitTail_backoff_def by (intro keeps_finish_thn keeps_finish_ops b)
  show "keeps_finish (WaitHead i req)"
    unfolding WaitHead_def by (intro keeps_finish_thn keeps_finish_ops c)
  show "keeps_finish (WaitHead_backoff i req bk)"
    unfolding WaitHead_backoff_def by (intro keeps_finish_thn keeps_finish_ops d)
  show "keeps_finish (wake_slots j sz)"
    unfolding keeps_finish_def using wake_slots_finish by blast
qed

lemma Enqueue_finish:
  assumes fin: "finish (queue w)" and run: "Enqueue v backoff w = (r, w')"
  shows "finish (queue w')"
proof -
  have body: "keeps_finish
      (thn (case backoff of None \<Rightarrow> WaitTail slot t | Some b \<Rightarrow> WaitTail_backoff slot t b)
         (\<lambda>u. thn (slot_assign slot v) (\<lambda>u. WakeHead slot (ucast (t + 1)))))" for slot t
    unfolding WakeHead_def
    by (cases backoff; simp; intro keeps_finish_thn keeps_finish_ops keeps_finish_loops)
  from run [unfolded Enqueue_def] show ?thesis
  proof (cases rule: thn_cases)
    case pending
    show ?thesis by (rule keeps_finishD [OF keeps_finish_ops(1) fin pending(1)])
  next
    case fault
    show ?thesis by (rule keeps_finishD [OF keeps_finish_ops(1) fin fault(1)])
  next
    case (go t w1)
    have f1: "finish (queue w1)" by (rule keeps_finishD [OF keeps_finish_ops(1) fin go(1)])
    from go(2) show ?thesis unfolding Let_def by (rule keeps_finishD [OF body f1])
  qed
qed

lemma Dequeue_finish:
  assumes fin: "finish (queue w)" and run: "Dequeue moved_from v backoff w = (r, w')"
  shows "finish (queue w')"
proof -
  have body: "keeps_finish
      (thn (case backoff of None \<Rightarrow> WaitHead slot req | Some b \<Rightarrow> WaitHead_backoff slot req b)
         (\<lambda>ok. if \<not> ok then ret (False, v)
              else thn (slot_move_out moved_from slot)
                     (\<lambda>v'. thn (WakeTail slot nt) (\<lambda>u. ret (True, v')))))" for slot req nt
  proof (rule keeps_finish_thn)
    show "keeps_finish
        (case backoff of None \<Rightarrow> WaitHead slot req | Some b \<Rightarrow> WaitHead_backoff slot req b)"
      by (cases backoff) (simp_all add: keeps_finish_loops)
  next
    fix ok
    show "keeps_finish (if \<not> ok then ret (False, v)
              else thn (slot_move_out moved_from slot)
                     (\<lambda>v'. thn (WakeTail slot nt) (\<lambda>u. ret (True, v'))))"
      unfolding WakeTail_def
      by (cases ok; simp; intro keeps_finish_thn keeps_finish_ops keeps_finish_ret)
  qed
  from run [unfolded Dequeue_def] show ?thesis
  proof (cases rule: thn_cases)
    case pending
    show ?thesis by (rule keeps_finishD [OF keeps_finish_ops(2) fin pending(1)])
  next
    case fault
    show ?thesis by (rule keeps_finishD [OF keeps_finish_ops(2) fin fault(1)])
  next
    case (go h w1)
    have f1: "finish (queue w1)" by (rule keeps_finishD [OF keeps_finish_ops(2) fin go(1)])
    from go(2) show ?thesis unfolding Let_def by (rule keeps_finishD [OF body f1])
  qed
qed

lemma Finish_finish:
  assumes fin: "finish (queue w)" and run: "Finish w = (r, w')"
  shows "finish (queue w')"
  using run unfolding Finish_def
proof (cases rule: thn_cases)
  case pending
  show ?thesis by (rule keeps_finishD [OF keeps_finish_ops(5) fin pending(1)])
next
  case fault
  show ?thesis by (rule keeps_finishD [OF keeps_finish_ops(5) fin fault(1)])
next
  case (go u w1)
  have f1: "finish (queue w1)" by (rule keeps_finishD [OF keeps_finish_ops(5) fin go(1)])
  show ?thesis by (rule wake_slots_finish [OF f1 go(2)])
qed

subsection \<open>Finish returns\<close>

lemma ring_perform:
  "ring q = Some r \<Longrightarrow> \<exists>r'. ring (perform a q) = Some r' \<and> length r' = length r"
  by (cases a) (auto simp: on_slot_def split: option.splits prod.splits)

lemma ring_interfere:
  "ring q = Some r \<Longrightarrow> \<exists>r'. ring (interfere os q) = Some r' \<and> length r' = length r"
  unfolding interfere_def
proof (induction os arbitrary: q r)
  case Nil
  then show ?case by simp
next
  case (Cons a os)
  from ring_perform [OF Cons.prems, of a] obtain r1 where
    r1: "ring (perform a q) = Some r1" "length r1 = length r" by blast
  from Cons.IH [OF r1(1)] r1(2) show ?case by simp
qed

lemma slot_Wake_live:
  assumes "sched w = os # rest" and "ring (queue w) = Some r" and "i < length r"
  shows "slot_Wake i w =
           (Ret (), w\<lparr>queue := interfere os (queue w), sched := rest,
                       log := log w @ [(SlotWake i, interfere os (queue w),
                                         interfere os (queue w))]\<rparr>)"
proof -
  from ring_interfere [OF assms(2), of os] obtain r' where
    r': "ring (interfere os (queue w)) = Some r'" "length r' = length r" by blast
  have "on_slot i (\<lambda>s. ((), Wake s)) (interfere os (queue w)) = Some ((), interfere os (queue w))"
    using r' assms(3) by (simp add: on_slot_def Wake_def)
  then show ?thesis using assms(1) by (simp add: slot_Wake_def atomic_def Let_def)
qed

lemma wake_slots_total:
  "ring (queue w) = Some r \<Longrightarrow> unat sz \<le> length r \<Longrightarrow> unat sz - unat i \<le> length (sched w) \<Longrightarrow>
     \<exists>w' ext. wake_slots i sz w = (Ret (), w') \<and> log w' = log w @ ext \<and>
       map fst ext = map SlotWake [unat i..<unat sz] \<and> list_all unchanged ext"
proof (induction i sz w arbitrary: r rule: wake_slots.induct)
  case (1 i sz w)
  show ?case
  proof (cases "i < sz")
    case False
    then have "unat sz \<le> unat i" by (simp add: word_less_nat_alt)
    with False show ?thesis by (simp add: wake_slots.simps)
  next
    case True
    then have lt: "unat i < unat sz" by (simp add: word_less_nat_alt)
    have s: "unat (i + 1) = Suc (unat i)" using True by (rule unat_succ_below)
    from lt "1.prems"(3) obtain os rest where sch: "sched w = os # rest"
      by (cases "sched w") auto
    let ?q = "interfere os (queue w)"
    let ?w1 = "w\<lparr>queue := ?q, sched := rest, log := log w @ [(SlotWake (unat i), ?q, ?q)]\<rparr>"
    have wk: "slot_Wake (unat i) w = (Ret (), ?w1)"
      using sch "1.prems"(1) lt "1.prems"(2) by (intro slot_Wake_live) auto
    from ring_interfere [OF "1.prems"(1), of os] obtain r' where
      r': "ring (queue ?w1) = Some r'" "length r' = length r" by auto
    have "unat sz \<le> length r'" using "1.prems"(2) r'(2) by simp
    moreover have "unat sz - unat (i + 1) \<le> length (sched ?w1)"
      using "1.prems"(3) sch s by simp
    ultimately obtain w' ext where
      ih: "wake_slots (i + 1) sz ?w1 = (Ret (), w')" "log w' = log ?w1 @ ext"
        "map fst ext = map SlotWake [unat (i + 1)..<unat sz]" "list_all unchanged ext"
      using "1.IH" [OF True wk r'(1)] by blast
    have "wake_slots i sz w = (Ret (), w')"
      using True wk ih(1) by (simp add: wake_slots.simps [of i] thn_def)
    moreover have "log w' = log w @ (SlotWake (unat i), ?q, ?q) # ext" using ih(2) by simp
    moreover have "map fst ((SlotWake (unat i), ?q, ?q) # ext) = map SlotWake [unat i..<unat sz]"
      using ih(3) s lt by (simp add: upt_conv_Cons)
    moreover have "list_all unchanged ((SlotWake (unat i), ?q, ?q) # ext)"
      using ih(4) by (simp add: unchanged_def)
    ultimately show ?thesis by blast
  qed
qed

lemma Finish_total:
  assumes "live (queue w)" and "log w = []" and "unat (mask (queue w) + 1) < length (sched w)"
  shows "\<exists>w'. Finish w = (Ret (), w') \<and>
           map fst (log w') =
             FinishStore memory_order_relaxed True #
             map SlotWake [0..<unat (mask (queue w) + 1)] \<and>
           finish (queue w')"
proof -
  from assms(1) obtain r where
    r: "ring (queue w) = Some r" "length r = unat (mask (queue w) + 1)"
    by (auto simp: live_def split: option.splits)
  from assms(3) obtain os rest where sch: "sched w = os # rest" by (cases "sched w") auto
  let ?q = "interfere os (queue w)"
  let ?w1 = "w\<lparr>queue := ?q\<lparr>finish := True\<rparr>, sched := rest,
                log := log w @ [(FinishStore memory_order_relaxed True, ?q, ?q\<lparr>finish := True\<rparr>)]\<rparr>"
  have fs: "finish_store True memory_order_relaxed w = (Ret (), ?w1)"
    using sch by (simp add: finish_store_def atomic_def Let_def)
  from ring_interfere [OF r(1), of os] obtain r' where
    r': "ring (queue ?w1) = Some r'" "length r' = length r" by auto
  have m: "mask (queue ?w1) = mask (queue w)" by simp
  have "unat (mask (queue ?w1) + 1) \<le> length r'" using r(2) r'(2) by simp
  moreover have "unat (mask (queue ?w1) + 1) - unat (0::u32) \<le> length (sched ?w1)"
    using assms(3) sch by simp
  ultimately obtain w' ext where
    ws: "wake_slots 0 (mask (queue ?w1) + 1) ?w1 = (Ret (), w')" "log w' = log ?w1 @ ext"
      "map fst ext = map SlotWake [unat (0::u32)..<unat (mask (queue ?w1) + 1)]"
    using wake_slots_total [OF r'(1), of "mask (queue ?w1) + 1" 0] by blast
  have "Finish w = (Ret (), w')" using fs ws(1) by (simp add: Finish_def thn_def)
  moreover have "map fst (log w') =
      FinishStore memory_order_relaxed True # map SlotWake [0..<unat (mask (queue w) + 1)]"
    using ws(2,3) assms(2) by simp
  moreover have "finish (queue w')" by (rule wake_slots_finish [OF _ ws(1)]) simp
  ultimately show ?thesis by (intro exI [of _ w'] conjI)
qed

lemma live_interfere: "live q \<Longrightarrow> live (interfere os q)"
proof -
  assume "live q"
  then obtain r where r: "ring q = Some r" "mask q + 1 \<noteq> 0" "length r = unat (mask q + 1)"
    by (auto simp: live_def split: option.splits)
  from ring_interfere [OF r(1), of os] obtain r' where
    "ring (interfere os q) = Some r'" "length r' = length r" by blast
  with r show ?thesis by (simp add: live_def)
qed

subsection \<open>The constructor\<close>

lemma nat_pow2_and: "0 < n \<Longrightarrow> (n AND (n - 1) = 0) = (\<exists>k. n = 2 ^ k)" for n :: nat
proof (induction n rule: less_induct)
  case (less n)
  show ?case
  proof (cases "even n")
    case True
    then obtain m where m: "n = 2 * m" by (auto elim: evenE)
    with less.prems have m0: "0 < m" by simp
    have "n - 1 = 2 * (m - 1) + 1" using m m0 by simp
    then have "n AND (n - 1) = 2 * (m AND (m - 1))"
      using m by (simp add: and_nat_rec [of "2 * m"])
    moreover have "(m AND (m - 1) = 0) = (\<exists>k. m = 2 ^ k)"
      using less.IH [of m] m m0 by simp
    moreover have "(\<exists>k. m = 2 ^ k) = (\<exists>k. n = 2 ^ k)"
    proof
      assume "\<exists>k. m = 2 ^ k"
      then obtain k where "m = 2 ^ k" ..
      then have "n = 2 ^ Suc k" using m by simp
      then show "\<exists>k. n = 2 ^ k" ..
    next
      assume "\<exists>k. n = 2 ^ k"
      then obtain k where k: "n = 2 ^ k" ..
      with m m0 have "k \<noteq> 0" by (cases k) auto
      then obtain j where "k = Suc j" by (cases k) auto
      with k m have "m = 2 ^ j" by simp
      then show "\<exists>k. m = 2 ^ k" ..
    qed
    ultimately show ?thesis by simp
  next
    case False
    then obtain m where m: "n = 2 * m + 1" by (auto elim: oddE)
    have "n AND (n - 1) = 2 * m"
      using m by (simp add: and_nat_rec [of "Suc (2 * m)" "2 * m"])
    moreover have "(m = 0) = (\<exists>k. n = 2 ^ k)"
    proof
      assume "m = 0"
      then have "n = 2 ^ 0" using m by simp
      then show "\<exists>k. n = 2 ^ k" ..
    next
      assume "\<exists>k. n = 2 ^ k"
      then obtain k where k: "n = 2 ^ k" ..
      with False have "k = 0" by (cases k) auto
      with k m show "m = 0" by simp
    qed
    ultimately show ?thesis by simp
  qed
qed

lemma word_pow2_and:
  "(sz \<noteq> 0 \<and> sz AND (sz - 1) = 0) = (\<exists>k<32. sz = 2 ^ k)" for sz :: u32
proof -
  have u: "sz \<noteq> 0 \<Longrightarrow> unat (sz - 1) = unat sz - 1"
    by (simp add: unat_minus_one)
  have a: "unat (sz AND (sz - 1)) = unat sz AND unat (sz - 1)"
    by (rule unsigned_and_eq)
  have z: "(sz AND (sz - 1) = 0) = (unat (sz AND (sz - 1)) = 0)"
    by (simp add: unat_eq_0)
  have "(sz \<noteq> 0 \<and> sz AND (sz - 1) = 0) = (0 < unat sz \<and> unat sz AND (unat sz - 1) = 0)"
    unfolding z a using u by (auto simp: unat_gt_0)
  also have "\<dots> = (0 < unat sz \<and> (\<exists>k. unat sz = 2 ^ k))"
    using nat_pow2_and [of "unat sz"] by auto
  also have "\<dots> = (\<exists>k<32. sz = 2 ^ k)"
  proof
    assume "0 < unat sz \<and> (\<exists>k. unat sz = 2 ^ k)"
    then obtain k where k: "unat sz = 2 ^ k" by blast
    have lt: "unat sz < 2 ^ 32" using unsigned_less [of sz] by simp
    have "k < 32"
    proof (rule ccontr)
      assume "\<not> k < 32"
      then have "(2::nat) ^ 32 \<le> 2 ^ k" by (intro power_increasing) auto
      with k lt show False by simp
    qed
    moreover have "sz = 2 ^ k"
    proof -
      have "sz = of_nat (unat sz)" by simp
      also have "\<dots> = of_nat (2 ^ k)" using k by simp
      also have "\<dots> = 2 ^ k" by simp
      finally show ?thesis .
    qed
    ultimately show "\<exists>k<32. sz = 2 ^ k" by blast
  next
    assume "\<exists>k<32. sz = 2 ^ k"
    then obtain k where k: "k < 32" "sz = 2 ^ k" by blast
    have "(2::nat) ^ k < 2 ^ 32" using k(1) by (intro power_strict_increasing) auto
    moreover have "unat sz = unat (of_nat (2 ^ k) :: u32)" using k(2) by simp
    ultimately have "unat sz = 2 ^ k" by (simp add: unat_of_nat del: of_nat_power)
    then show "0 < unat sz \<and> (\<exists>k. unat sz = 2 ^ k)" by auto
  qed
  finally show ?thesis .
qed

lemma init_tickets_length [simp]: "length (init_tickets i sz r) = length r"
  by (induction i sz r rule: init_tickets.induct) (simp add: init_tickets.simps)

lemma init_tickets_nth:
  "length r = unat sz \<Longrightarrow> j < unat sz \<Longrightarrow>
     init_tickets i sz r ! j =
       (if unat i \<le> j then (r ! j)\<lparr>ticket := of_nat j\<rparr> else r ! j)"
proof (induction i sz r rule: init_tickets.induct)
  case (1 i sz r)
  show ?case
  proof (cases "i < sz")
    case True
    then have s: "unat (i + 1) = Suc (unat i)" by (rule unat_succ_below)
    have "init_tickets i sz r = init_tickets (i + 1) sz (r[unat i := Initialize i (r ! unat i)])"
      using True by (simp add: init_tickets.simps)
    moreover have "init_tickets (i + 1) sz (r[unat i := Initialize i (r ! unat i)]) ! j =
        (if unat (i + 1) \<le> j then (r[unat i := Initialize i (r ! unat i)] ! j)\<lparr>ticket := of_nat j\<rparr>
         else r[unat i := Initialize i (r ! unat i)] ! j)"
      using "1.IH" [OF True] "1.prems" by simp
    moreover have "j = unat i \<Longrightarrow> (of_nat j :: u32) = i" by simp
    moreover have "(\<not> Suc (unat i) \<le> j \<and> unat i \<le> j) = (j = unat i)" by auto
    ultimately show ?thesis
      using "1.prems" s by (auto simp: Initialize_def nth_list_update)
  next
    case False
    then have "unat sz \<le> unat i" by (simp add: word_less_nat_alt)
    with False "1.prems" show ?thesis by (simp add: init_tickets.simps)
  qed
qed

lemma ctor_live: "BoundedQueue_ctor memalign_ok fresh sz = Inr q \<Longrightarrow> live q"
  by (auto simp: BoundedQueue_ctor_def Let_def live_def split: if_splits)

subsection \<open>A call stops only where the schedule ends\<close>

lemma in_ring_perform [simp]: "in_ring i (perform a q) = in_ring i q"
  by (cases a) (auto simp: in_ring_def on_slot_def split: option.splits prod.splits)

lemma in_ring_interfere [simp]: "in_ring i (interfere os q) = in_ring i q"
  unfolding interfere_def by (induction os arbitrary: q) simp_all

lemma on_slot_in_ring:
  assumes "in_ring i q"
  shows "\<exists>a q'. on_slot i m q = Some (a, q') \<and> in_ring i q'"
proof -
  from assms obtain r where r: "ring q = Some r" "i < length r"
    by (auto simp: in_ring_def split: option.splits)
  obtain a s where m: "m (r ! i) = (a, s)" by (cases "m (r ! i)")
  from r m have "on_slot i m q = Some (a, q\<lparr>ring := Some (r[i := s])\<rparr>)"
    by (simp add: on_slot_def)
  moreover from r have "in_ring i (q\<lparr>ring := Some (r[i := s])\<rparr>)" by (simp add: in_ring_def)
  ultimately show ?thesis by blast
qed

lemma loads_tickets_refl: "log w' = log w \<Longrightarrow> loads_tickets w w'"
  by (simp add: loads_tickets_def)

lemma loads_tickets_same [simp]: "loads_tickets w w"
  by (simp add: loads_tickets_def)

lemma loads_tickets_trans: "loads_tickets w w1 \<Longrightarrow> loads_tickets w1 w' \<Longrightarrow> loads_tickets w w'"
  by (auto simp: loads_tickets_def)

lemma atomic_proceeds:
  assumes "atomic f ev w = (r, w')"
    and "\<And>q. in_ring i q \<Longrightarrow> \<exists>a q'. f q = Some (a, q') \<and> in_ring i q'"
    and "\<And>q a q'. f q = Some (a, q') \<Longrightarrow> reads_ticket (ev a, q, q')"
  shows "proceeds i w r w'"
proof (cases "sched w")
  case Nil
  with assms(1) have "r = Pending" "w' = w" by (simp_all add: atomic_def)
  with Nil show ?thesis by (simp add: proceeds_def loads_tickets_refl)
next
  case (Cons os rest)
  show ?thesis
  proof (cases "f (interfere os (queue w))")
    case None
    with Cons assms(1) have r: "r = Fault" and l: "log w' = log w"
      by (auto simp: atomic_def Let_def)
    have "\<not> in_ring i (queue w)"
    proof
      assume "in_ring i (queue w)"
      then have "in_ring i (interfere os (queue w))" by simp
      from assms(2) [OF this] None show False by simp
    qed
    with r l show ?thesis by (simp add: proceeds_def loads_tickets_refl)
  next
    case (Some p)
    obtain a q' where p: "p = (a, q')" by (cases p)
    with Some Cons assms(1) have r: "r = Ret a" and q: "queue w' = q'" and
      n: "length (log w') + length (sched w') = length (log w) + length (sched w)" and
      l: "log w' = log w @ [(ev a, interfere os (queue w), q')]"
      by (auto simp: atomic_def Let_def)
    have "in_ring i (queue w) \<longrightarrow> in_ring i q'"
    proof
      assume "in_ring i (queue w)"
      then have "in_ring i (interfere os (queue w))" by simp
      from assms(2) [OF this] Some p show "in_ring i q'" by simp
    qed
    moreover have "loads_tickets w w'"
      unfolding loads_tickets_def using l assms(3) [of "interfere os (queue w)" a q'] Some p
      by simp
    ultimately show ?thesis using r q n by (simp add: proceeds_def)
  qed
qed

lemma atomic_proceeds_member:
  fixes h :: "'v BoundedQueue \<Rightarrow> 'v BoundedQueue"
  assumes "atomic (\<lambda>q. Some (g q, h q)) ev w = (r, w')" and "\<And>q. ring (h q) = ring q"
    and "\<And>a q q'. reads_ticket (ev a, q, q')"
  shows "proceeds i w r w'"
  using assms(1)
proof (rule atomic_proceeds)
  fix q :: "'v BoundedQueue"
  assume "in_ring i q"
  with assms(2) [of q] have "in_ring i (h q)" by (simp add: in_ring_def)
  then show "\<exists>a q'. Some (g q, h q) = Some (a, q') \<and> in_ring i q'" by simp
next
  fix q a q'
  show "reads_ticket (ev a, q, q')" by (rule assms(3))
qed

lemma atomic_proceeds_slot:
  fixes m :: "'v Slot \<Rightarrow> 'a \<times> 'v Slot"
  assumes "atomic (on_slot i m) ev w = (r, w')"
    and "\<And>q a q'. on_slot i m q = Some (a, q') \<Longrightarrow> reads_ticket (ev a, q, q')"
  shows "proceeds i w r w'"
  using assms(1)
proof (rule atomic_proceeds)
  fix q :: "'v BoundedQueue"
  assume "in_ring i q"
  then show "\<exists>a q'. on_slot i m q = Some (a, q') \<and> in_ring i q'" by (rule on_slot_in_ring)
next
  fix q a q'
  assume "on_slot i m q = Some (a, q')"
  then show "reads_ticket (ev a, q, q')" by (rule assms(2))
qed

lemma on_slot_Load_ticket:
  "on_slot i (\<lambda>s. (Load s, s)) q = Some (c, q') \<Longrightarrow> ticket_is i c q"
  by (auto simp: on_slot_def Load_def ticket_is_def split: option.splits if_splits)

lemma proceeds_ops:
  "tail_fetch_add mo w = (ra, w') \<Longrightarrow> proceeds i w ra w'"
  "head_fetch_add mo w = (ra, w') \<Longrightarrow> proceeds i w ra w'"
  "tail_load mo w = (ra, w') \<Longrightarrow> proceeds i w ra w'"
  "Finished w = (rb, w') \<Longrightarrow> proceeds i w rb w'"
  "call_backoff bk n w = (rb, w') \<Longrightarrow> proceeds i w rb w'"
  "slot_Load i w = (rc, w') \<Longrightarrow> proceeds i w rc w'"
  "slot_WaitAndLoad i c w = (rc, w') \<Longrightarrow> proceeds i w rc w'"
  "slot_StoreAndWake i c w = (ru, w') \<Longrightarrow> proceeds i w ru w'"
  "slot_assign i v w = (ru, w') \<Longrightarrow> proceeds i w ru w'"
  "slot_move_out mv i w = (rv, w') \<Longrightarrow> proceeds i w rv w'"
proof -
  show "tail_fetch_add mo w = (ra, w') \<Longrightarrow> proceeds i w ra w'"
    unfolding tail_fetch_add_def by (erule atomic_proceeds_member) simp_all
  show "head_fetch_add mo w = (ra, w') \<Longrightarrow> proceeds i w ra w'"
    unfolding head_fetch_add_def by (erule atomic_proceeds_member) simp_all
  show "tail_load mo w = (ra, w') \<Longrightarrow> proceeds i w ra w'"
    unfolding tail_load_def by (erule atomic_proceeds_member) simp_all
  show "Finished w = (rb, w') \<Longrightarrow> proceeds i w rb w'"
    unfolding Finished_def finish_load_def by (erule atomic_proceeds_member) simp_all
  show "call_backoff bk n w = (rb, w') \<Longrightarrow> proceeds i w rb w'"
    unfolding call_backoff_def
    by (erule atomic_proceeds_member [where g = "\<lambda>q. bk n"]) simp_all
  show "slot_Load i w = (rc, w') \<Longrightarrow> proceeds i w rc w'"
    unfolding slot_Load_def by (erule atomic_proceeds_slot) (simp add: on_slot_Load_ticket)
  show "slot_WaitAndLoad i c w = (rc, w') \<Longrightarrow> proceeds i w rc w'"
    unfolding slot_WaitAndLoad_def WaitAndLoad_def
    by (erule atomic_proceeds_slot) (simp add: on_slot_Load_ticket)
  show "slot_StoreAndWake i c w = (ru, w') \<Longrightarrow> proceeds i w ru w'"
    unfolding slot_StoreAndWake_def by (erule atomic_proceeds_slot) simp
  show "slot_assign i v w = (ru, w') \<Longrightarrow> proceeds i w ru w'"
    unfolding slot_assign_def by (erule atomic_proceeds_slot) simp
  show "slot_move_out mv i w = (rv, w') \<Longrightarrow> proceeds i w rv w'"
    unfolding slot_move_out_def by (erule atomic_proceeds_slot) simp
qed

lemma proceeds_ret: "ret a w = (r, w') \<Longrightarrow> proceeds i w r w'"
  by (auto simp: ret_def proceeds_def loads_tickets_refl)

lemma proceeds_thn:
  assumes "thn m k w = (r, w')"
    and "\<And>r1 w1. m w = (r1, w1) \<Longrightarrow> proceeds i w r1 w1"
    and "\<And>a w1. m w = (Ret a, w1) \<Longrightarrow> k a w1 = (r, w') \<Longrightarrow> proceeds i w1 r w'"
  shows "proceeds i w r w'"
  using assms(1)
proof (cases rule: thn_cases)
  case pending
  from assms(2) [OF pending(1)] pending(2) show ?thesis by (auto simp: proceeds_def)
next
  case fault
  from assms(2) [OF fault(1)] fault(2) show ?thesis by (auto simp: proceeds_def)
next
  case (go a w1)
  from assms(2) [OF go(1)] assms(3) [OF go(1) go(2)] show ?thesis
    by (auto simp: proceeds_def intro: loads_tickets_trans)
qed

lemma atomic_Pending: "atomic f ev w = (Pending, w') \<Longrightarrow> sched w = [] \<and> w' = w"
  by (auto simp: atomic_def Let_def split: list.splits option.splits)

lemma fetch_add_no_fault:
  "tail_fetch_add mo w \<noteq> (Fault, w')" "head_fetch_add mo w \<noteq> (Fault, w')"
  by (auto simp: tail_fetch_add_def head_fetch_add_def atomic_def Let_def split: list.splits)

lemma live_in_ring:
  fixes t :: u64
  assumes "live q"
  shows "in_ring (unat (t AND ucast (mask q))) q"
proof -
  from assms obtain r where r: "ring q = Some r" "mask q + 1 \<noteq> 0" "length r = unat (mask q + 1)"
    by (auto simp: live_def split: option.splits)
  have "t AND ucast (mask q) \<le> ucast (mask q)" by (rule word_and_le1)
  then have "unat (t AND ucast (mask q)) \<le> unat (ucast (mask q) :: u64)"
    by (simp add: word_le_nat_alt)
  also have "\<dots> = unat (mask q)" by (rule unat_ucast_up)
  also have "\<dots> < unat (mask q + 1)" using r(2) by (simp add: add.commute unatSuc)
  finally show ?thesis using r by (simp add: in_ring_def)
qed

lemma finish_return_proceeds: "finish_return req w = (r, w') \<Longrightarrow> proceeds i w r w'"
proof -
  assume "finish_return req w = (r, w')"
  then have t: "thn Finished
       (\<lambda>f. if f then
               thn (tail_load memory_order_seq_cst) (\<lambda>tl. ret (req \<ge> tl))
             else ret False) w = (r, w')"
    by (simp add: finish_return_def)
  show ?thesis
  proof (rule proceeds_thn [OF t])
    fix r1 w1
    assume "Finished w = (r1, w1)"
    then show "proceeds i w r1 w1" by (rule proceeds_ops)
  next
    fix f w1
    assume k: "(if f then thn (tail_load memory_order_seq_cst) (\<lambda>tl. ret (req \<ge> tl))
                else ret False) w1 = (r, w')"
    show "proceeds i w1 r w'"
    proof (cases f)
      case False
      with k have "ret False w1 = (r, w')" by simp
      then show ?thesis by (rule proceeds_ret)
    next
      case True
      with k have t2: "thn (tail_load memory_order_seq_cst) (\<lambda>tl. ret (req \<ge> tl)) w1 = (r, w')"
        by simp
      show ?thesis
      proof (rule proceeds_thn [OF t2])
        fix r1 w2
        assume "tail_load memory_order_seq_cst w1 = (r1, w2)"
        then show "proceeds i w1 r1 w2" by (rule proceeds_ops)
      next
        fix tl w2
        assume "ret (req \<ge> tl) w2 = (r, w')"
        then show "proceeds i w2 r w'" by (rule proceeds_ret)
      qed
    qed
  qed
qed

lemma WaitTail_loop_proceeds:
  "WaitTail_loop i req cur w = (r, w') \<Longrightarrow> proceeds i w r w'"
proof (induction i req cur w rule: WaitTail_loop.induct)
  case (1 slot req cur w)
  show ?case
  proof (cases "cur = ucast req")
    case True
    with "1.prems" have "w' = w" "r = Ret ()" by (simp_all add: WaitTail_loop.simps)
    then show ?thesis by (simp add: proceeds_def)
  next
    case False
    with "1.prems" have
      t: "thn (slot_WaitAndLoad slot cur) (\<lambda>c. WaitTail_loop slot req c) w = (r, w')"
      by (simp add: WaitTail_loop.simps)
    show ?thesis
    proof (rule proceeds_thn [OF t])
      fix r1 w1
      assume "slot_WaitAndLoad slot cur w = (r1, w1)"
      then show "proceeds slot w r1 w1" by (rule proceeds_ops)
    next
      fix a w1
      assume "slot_WaitAndLoad slot cur w = (Ret a, w1)" "WaitTail_loop slot req a w1 = (r, w')"
      then show "proceeds slot w1 r w'" by (rule "1.IH" [OF False])
    qed
  qed
qed

lemma WaitTail_backoff_loop_proceeds:
  "WaitTail_backoff_loop i req bk n waiting cur w = (r, w') \<Longrightarrow> proceeds i w r w'"
proof (induction i req bk n waiting cur w rule: WaitTail_backoff_loop.induct)
  case (1 slot req bk n waiting cur w)
  show ?case
  proof (cases "cur = ucast req")
    case True
    with "1.prems" have "w' = w" "r = Ret ()" by (simp_all add: WaitTail_backoff_loop.simps)
    then show ?thesis by (simp add: proceeds_def)
  next
    case False
    show ?thesis
    proof (cases waiting)
      case True
      with False "1.prems" have
        t: "thn (slot_WaitAndLoad slot cur)
           (\<lambda>c. WaitTail_backoff_loop slot req bk n waiting c) w = (r, w')"
        by (simp add: WaitTail_backoff_loop.simps)
      show ?thesis
      proof (rule proceeds_thn [OF t])
        fix r1 w1
        assume "slot_WaitAndLoad slot cur w = (r1, w1)"
        then show "proceeds slot w r1 w1" by (rule proceeds_ops)
      next
        fix a w1
        assume "slot_WaitAndLoad slot cur w = (Ret a, w1)"
          "WaitTail_backoff_loop slot req bk n waiting a w1 = (r, w')"
        then show "proceeds slot w1 r w'" by (rule "1.IH"(1) [OF False True])
      qed
    next
      case nw: False
      with False "1.prems" have
        t: "thn (call_backoff bk n)
           (\<lambda>b. thn (slot_Load slot)
              (\<lambda>c. WaitTail_backoff_loop slot req bk (Suc n) b c)) w = (r, w')"
        by (simp add: WaitTail_backoff_loop.simps)
      show ?thesis
      proof (rule proceeds_thn [OF t])
        fix r1 w1
        assume "call_backoff bk n w = (r1, w1)"
        then show "proceeds slot w r1 w1" by (rule proceeds_ops)
      next
        fix b w1
        assume cb: "call_backoff bk n w = (Ret b, w1)" and
          t2: "thn (slot_Load slot)
                 (\<lambda>c. WaitTail_backoff_loop slot req bk (Suc n) b c) w1 = (r, w')"
        show "proceeds slot w1 r w'"
        proof (rule proceeds_thn [OF t2])
          fix r1 w2
          assume "slot_Load slot w1 = (r1, w2)"
          then show "proceeds slot w1 r1 w2" by (rule proceeds_ops)
        next
          fix c w2
          assume "slot_Load slot w1 = (Ret c, w2)"
            "WaitTail_backoff_loop slot req bk (Suc n) b c w2 = (r, w')"
          then show "proceeds slot w2 r w'" by (rule "1.IH"(2) [OF False nw cb])
        qed
      qed
    qed
  qed
qed

lemma WaitHead_loop_proceeds:
  "WaitHead_loop i req cur w = (r, w') \<Longrightarrow> proceeds i w r w'"
proof (induction i req cur w rule: WaitHead_loop.induct)
  case (1 slot req cur w)
  show ?case
  proof (cases "cur = ucast req")
    case True
    with "1.prems" have "w' = w" "r = Ret True" by (simp_all add: WaitHead_loop.simps)
    then show ?thesis by (simp add: proceeds_def)
  next
    case False
    with "1.prems" have
      t: "thn (finish_return req)
          (\<lambda>stop w'. if stop then ret False w'
                      else thn (slot_WaitAndLoad slot cur)
                             (\<lambda>c. WaitHead_loop slot req c) w') w = (r, w')"
      by (simp add: WaitHead_loop.simps)
    show ?thesis
    proof (rule proceeds_thn [OF t])
      fix r1 w1
      assume "finish_return req w = (r1, w1)"
      then show "proceeds slot w r1 w1" by (rule finish_return_proceeds)
    next
      fix stop w1
      assume fr: "finish_return req w = (Ret stop, w1)" and
        k: "(if stop then ret False w1
             else thn (slot_WaitAndLoad slot cur) (\<lambda>c. WaitHead_loop slot req c) w1) = (r, w')"
      show "proceeds slot w1 r w'"
      proof (cases stop)
        case True
        with k have "ret False w1 = (r, w')" by simp
        then show ?thesis by (rule proceeds_ret)
      next
        case ns: False
        with k have
          t2: "thn (slot_WaitAndLoad slot cur) (\<lambda>c. WaitHead_loop slot req c) w1 = (r, w')"
          by simp
        show ?thesis
        proof (rule proceeds_thn [OF t2])
          fix r1 w2
          assume "slot_WaitAndLoad slot cur w1 = (r1, w2)"
          then show "proceeds slot w1 r1 w2" by (rule proceeds_ops)
        next
          fix a w2
          assume "slot_WaitAndLoad slot cur w1 = (Ret a, w2)"
            "WaitHead_loop slot req a w2 = (r, w')"
          then show "proceeds slot w2 r w'" by (rule "1.IH" [OF False fr ns])
        qed
      qed
    qed
  qed
qed

lemma WaitHead_backoff_loop_proceeds:
  "WaitHead_backoff_loop i req bk n waiting cur w = (r, w') \<Longrightarrow> proceeds i w r w'"
proof (induction i req bk n waiting cur w rule: WaitHead_backoff_loop.induct)
  case (1 slot req bk n waiting cur w)
  show ?case
  proof (cases "cur = ucast req")
    case True
    with "1.prems" have "w' = w" "r = Ret True" by (simp_all add: WaitHead_backoff_loop.simps)
    then show ?thesis by (simp add: proceeds_def)
  next
    case False
    with "1.prems" have
      t: "thn (finish_return req)
          (\<lambda>stop w'.
             if stop then ret False w'
             else if waiting then
               thn (slot_WaitAndLoad slot cur)
                 (\<lambda>c. WaitHead_backoff_loop slot req bk n waiting c) w'
             else
               thn (call_backoff bk n)
                 (\<lambda>b. thn (slot_Load slot)
                    (\<lambda>c. WaitHead_backoff_loop slot req bk (Suc n) b c)) w') w = (r, w')"
      by (simp add: WaitHead_backoff_loop.simps)
    show ?thesis
    proof (rule proceeds_thn [OF t])
      fix r1 w1
      assume "finish_return req w = (r1, w1)"
      then show "proceeds slot w r1 w1" by (rule finish_return_proceeds)
    next
      fix stop w1
      assume fr: "finish_return req w = (Ret stop, w1)" and
        k: "(if stop then ret False w1
             else if waiting then
               thn (slot_WaitAndLoad slot cur)
                 (\<lambda>c. WaitHead_backoff_loop slot req bk n waiting c) w1
             else
               thn (call_backoff bk n)
                 (\<lambda>b. thn (slot_Load slot)
                    (\<lambda>c. WaitHead_backoff_loop slot req bk (Suc n) b c)) w1) = (r, w')"
      show "proceeds slot w1 r w'"
      proof (cases stop)
        case True
        with k have "ret False w1 = (r, w')" by simp
        then show ?thesis by (rule proceeds_ret)
      next
        case ns: False
        show ?thesis
        proof (cases waiting)
          case True
          with ns k have
            t2: "thn (slot_WaitAndLoad slot cur)
               (\<lambda>c. WaitHead_backoff_loop slot req bk n waiting c) w1 = (r, w')"
            by simp
          show ?thesis
          proof (rule proceeds_thn [OF t2])
            fix r1 w2
            assume "slot_WaitAndLoad slot cur w1 = (r1, w2)"
            then show "proceeds slot w1 r1 w2" by (rule proceeds_ops)
          next
            fix a w2
            assume "slot_WaitAndLoad slot cur w1 = (Ret a, w2)"
              "WaitHead_backoff_loop slot req bk n waiting a w2 = (r, w')"
            then show "proceeds slot w2 r w'" by (rule "1.IH"(1) [OF False fr ns True])
          qed
        next
          case nw: False
          with ns k have
            t2: "thn (call_backoff bk n)
               (\<lambda>b. thn (slot_Load slot)
                  (\<lambda>c. WaitHead_backoff_loop slot req bk (Suc n) b c)) w1 = (r, w')"
            by simp
          show ?thesis
          proof (rule proceeds_thn [OF t2])
            fix r1 w2
            assume "call_backoff bk n w1 = (r1, w2)"
            then show "proceeds slot w1 r1 w2" by (rule proceeds_ops)
          next
            fix b w2
            assume cb: "call_backoff bk n w1 = (Ret b, w2)" and
              t3: "thn (slot_Load slot)
                     (\<lambda>c. WaitHead_backoff_loop slot req bk (Suc n) b c) w2 = (r, w')"
            show "proceeds slot w2 r w'"
            proof (rule proceeds_thn [OF t3])
              fix r1 w3
              assume "slot_Load slot w2 = (r1, w3)"
              then show "proceeds slot w2 r1 w3" by (rule proceeds_ops)
            next
              fix c w3
              assume "slot_Load slot w2 = (Ret c, w3)"
                "WaitHead_backoff_loop slot req bk (Suc n) b c w3 = (r, w')"
              then show "proceeds slot w3 r w'" by (rule "1.IH"(2) [OF False fr ns nw cb])
            qed
          qed
        qed
      qed
    qed
  qed
qed

lemma wait_tail_proceeds:
  assumes "(case backoff of None \<Rightarrow> WaitTail i req | Some b \<Rightarrow> WaitTail_backoff i req b) w = (r, w')"
  shows "proceeds i w r w'"
proof (cases backoff)
  case None
  with assms have t: "thn (slot_Load i) (\<lambda>c. WaitTail_loop i req c) w = (r, w')"
    by (simp add: WaitTail_def)
  show ?thesis
  proof (rule proceeds_thn [OF t])
    fix r1 w1
    assume "slot_Load i w = (r1, w1)"
    then show "proceeds i w r1 w1" by (rule proceeds_ops)
  next
    fix c w1
    assume "WaitTail_loop i req c w1 = (r, w')"
    then show "proceeds i w1 r w'" by (rule WaitTail_loop_proceeds)
  qed
next
  case (Some b)
  with assms have
    t: "thn (slot_Load i) (\<lambda>c. WaitTail_backoff_loop i req b 0 False c) w = (r, w')"
    by (simp add: WaitTail_backoff_def)
  show ?thesis
  proof (rule proceeds_thn [OF t])
    fix r1 w1
    assume "slot_Load i w = (r1, w1)"
    then show "proceeds i w r1 w1" by (rule proceeds_ops)
  next
    fix c w1
    assume "WaitTail_backoff_loop i req b 0 False c w1 = (r, w')"
    then show "proceeds i w1 r w'" by (rule WaitTail_backoff_loop_proceeds)
  qed
qed

lemma wait_head_proceeds:
  assumes "(case backoff of None \<Rightarrow> WaitHead i req | Some b \<Rightarrow> WaitHead_backoff i req b) w = (r, w')"
  shows "proceeds i w r w'"
proof (cases backoff)
  case None
  with assms have t: "thn (slot_Load i) (\<lambda>c. WaitHead_loop i req c) w = (r, w')"
    by (simp add: WaitHead_def)
  show ?thesis
  proof (rule proceeds_thn [OF t])
    fix r1 w1
    assume "slot_Load i w = (r1, w1)"
    then show "proceeds i w r1 w1" by (rule proceeds_ops)
  next
    fix c w1
    assume "WaitHead_loop i req c w1 = (r, w')"
    then show "proceeds i w1 r w'" by (rule WaitHead_loop_proceeds)
  qed
next
  case (Some b)
  with assms have
    t: "thn (slot_Load i) (\<lambda>c. WaitHead_backoff_loop i req b 0 False c) w = (r, w')"
    by (simp add: WaitHead_backoff_def)
  show ?thesis
  proof (rule proceeds_thn [OF t])
    fix r1 w1
    assume "slot_Load i w = (r1, w1)"
    then show "proceeds i w r1 w1" by (rule proceeds_ops)
  next
    fix c w1
    assume "WaitHead_backoff_loop i req b 0 False c w1 = (r, w')"
    then show "proceeds i w1 r w'" by (rule WaitHead_backoff_loop_proceeds)
  qed
qed

lemma publish_proceeds:
  assumes t: "thn (slot_assign slot v) (\<lambda>u. WakeHead slot p) w = (r, w')"
  shows "proceeds slot w r w'"
proof (rule proceeds_thn [OF t])
  fix r1 w1
  assume "slot_assign slot v w = (r1, w1)"
  then show "proceeds slot w r1 w1" by (rule proceeds_ops)
next
  fix u w1
  assume "WakeHead slot p w1 = (r, w')"
  then show "proceeds slot w1 r w'" unfolding WakeHead_def by (rule proceeds_ops)
qed

lemma take_proceeds:
  assumes t: "thn (slot_move_out mv slot)
      (\<lambda>v'. thn (WakeTail slot p) (\<lambda>u. ret (True, v'))) w = (r, w')"
  shows "proceeds slot w r w'"
proof (rule proceeds_thn [OF t])
  fix r1 w1
  assume "slot_move_out mv slot w = (r1, w1)"
  then show "proceeds slot w r1 w1" by (rule proceeds_ops)
next
  fix v' w1
  assume t2: "thn (WakeTail slot p) (\<lambda>u. ret (True, v')) w1 = (r, w')"
  show "proceeds slot w1 r w'"
  proof (rule proceeds_thn [OF t2])
    fix r1 w2
    assume "WakeTail slot p w1 = (r1, w2)"
    then show "proceeds slot w1 r1 w2" unfolding WakeTail_def by (rule proceeds_ops)
  next
    fix u w2
    assume "ret (True, v') w2 = (r, w')"
    then show "proceeds slot w2 r w'" by (rule proceeds_ret)
  qed
qed

subsection \<open>Where a wait loop is left\<close>

lemma first_match_mem: "first_match x cs \<Longrightarrow> x \<in> set cs"
  by (induction cs) (auto split: if_splits)

lemma loop_end_matched: "loop_end c c [] True"
  by (simp add: loop_end_def)

lemma loop_end_silent:
  "cur \<noteq> c \<Longrightarrow> tickets (map fst pre) = [] \<Longrightarrow> loop_end c cur pre False"
  by (simp add: loop_end_def)

lemma loop_end_step:
  assumes "cur \<noteq> c" and "tickets (map fst pre) = []" and "observed (fst e) = [a]"
    and "loop_end c a ext m"
  shows "loop_end c cur (pre @ e # ext) m"
proof (cases m)
  case True
  show ?thesis
  proof (cases "ext = []")
    case True
    with assms(4) \<open>m\<close> have "a = c" by (simp add: loop_end_def)
    with True assms(3) \<open>m\<close> show ?thesis by (simp add: loop_end_def)
  next
    case False
    with assms(4) \<open>m\<close> have "observed (fst (last ext)) = [c]" by (simp add: loop_end_def)
    with False \<open>m\<close> show ?thesis by (simp add: loop_end_def)
  qed
next
  case False
  with assms show ?thesis by (simp add: loop_end_def)
qed

lemma loop_end_first:
  assumes "observed (fst e) = [c0]" and "loop_end c c0 ext m"
  shows "if m then observed (fst (last (e # ext))) = [c]
         else c \<notin> set (tickets (map fst (e # ext)))"
  using assms by (cases "ext = []") (auto simp: loop_end_def)

lemma finish_return_silent:
  assumes "finish_return req w = (r, w')"
  obtains e1 where "log w' = log w @ e1" "tickets (map fst e1) = []"
  using finish_return_log [OF assms, of 0] by blast

lemma WaitTail_loop_end:
  "WaitTail_loop i req cur w = (r, w') \<Longrightarrow>
     \<exists>ext. log w' = log w @ ext \<and> loop_end (ucast req) cur ext (r = Ret ())"
proof (induction i req cur w rule: WaitTail_loop.induct)
  case (1 slot req cur w)
  show ?case
  proof (cases "cur = ucast req")
    case True
    with "1.prems" have "w' = w" "r = Ret ()" by (simp_all add: WaitTail_loop.simps)
    with True show ?thesis by (simp add: loop_end_matched)
  next
    case False
    with "1.prems" have
      "thn (slot_WaitAndLoad slot cur) (\<lambda>c. WaitTail_loop slot req c) w = (r, w')"
      by (simp add: WaitTail_loop.simps)
    then show ?thesis
    proof (cases rule: thn_cases)
      case pending
      then have "log w' = log w @ []" by (auto dest: stuck)
      moreover have "loop_end (ucast req) cur [] (r = Ret ())"
        using pending(2) False by (simp add: loop_end_silent)
      ultimately show ?thesis by blast
    next
      case fault
      then have "log w' = log w @ []" by (auto dest: stuck)
      moreover have "loop_end (ucast req) cur [] (r = Ret ())"
        using fault(2) False by (simp add: loop_end_silent)
      ultimately show ?thesis by blast
    next
      case (go a w1)
      from go(1) obtain q where l1: "log w1 = log w @ [(SlotWaitAndLoad slot cur a, q, q)]"
        by (blast dest: slot_WaitAndLoad_Ret)
      from "1.IH" [OF False go(1) go(2)] obtain ext where
        ext: "log w' = log w1 @ ext" "loop_end (ucast req) a ext (r = Ret ())"
        by blast
      have "log w' = log w @ ([] @ (SlotWaitAndLoad slot cur a, q, q) # ext)"
        using l1 ext(1) by simp
      moreover have "loop_end (ucast req) cur ([] @ (SlotWaitAndLoad slot cur a, q, q) # ext)
          (r = Ret ())"
        using False _ _ ext(2) by (rule loop_end_step) simp_all
      ultimately show ?thesis by blast
    qed
  qed
qed

lemma WaitTail_backoff_loop_end:
  "WaitTail_backoff_loop i req bk n waiting cur w = (r, w') \<Longrightarrow>
     \<exists>ext. log w' = log w @ ext \<and> loop_end (ucast req) cur ext (r = Ret ())"
proof (induction i req bk n waiting cur w rule: WaitTail_backoff_loop.induct)
  case (1 slot req bk n waiting cur w)
  show ?case
  proof (cases "cur = ucast req")
    case True
    with "1.prems" have "w' = w" "r = Ret ()" by (simp_all add: WaitTail_backoff_loop.simps)
    with True show ?thesis by (simp add: loop_end_matched)
  next
    case False
    show ?thesis
    proof (cases waiting)
      case True
      with False "1.prems" have
        "thn (slot_WaitAndLoad slot cur)
           (\<lambda>c. WaitTail_backoff_loop slot req bk n waiting c) w = (r, w')"
        by (simp add: WaitTail_backoff_loop.simps)
      then show ?thesis
      proof (cases rule: thn_cases)
        case pending
        then have "log w' = log w @ []" by (auto dest: stuck)
        moreover have "loop_end (ucast req) cur [] (r = Ret ())"
          using pending(2) False by (simp add: loop_end_silent)
        ultimately show ?thesis by blast
      next
        case fault
        then have "log w' = log w @ []" by (auto dest: stuck)
        moreover have "loop_end (ucast req) cur [] (r = Ret ())"
          using fault(2) False by (simp add: loop_end_silent)
        ultimately show ?thesis by blast
      next
        case (go a w1)
        from go(1) obtain q where l1: "log w1 = log w @ [(SlotWaitAndLoad slot cur a, q, q)]"
          by (blast dest: slot_WaitAndLoad_Ret)
        from "1.IH"(1) [OF False True go(1) go(2)] obtain ext where
          ext: "log w' = log w1 @ ext" "loop_end (ucast req) a ext (r = Ret ())"
          by blast
        have "log w' = log w @ ([] @ (SlotWaitAndLoad slot cur a, q, q) # ext)"
          using l1 ext(1) by simp
        moreover have
          "loop_end (ucast req) cur ([] @ (SlotWaitAndLoad slot cur a, q, q) # ext) (r = Ret ())"
          using False _ _ ext(2) by (rule loop_end_step) simp_all
        ultimately show ?thesis by blast
      qed
    next
      case nw: False
      with False "1.prems" have
        "thn (call_backoff bk n)
           (\<lambda>b. thn (slot_Load slot)
              (\<lambda>c. WaitTail_backoff_loop slot req bk (Suc n) b c)) w = (r, w')"
        by (simp add: WaitTail_backoff_loop.simps)
      then show ?thesis
      proof (cases rule: thn_cases)
        case pending
        then have "log w' = log w @ []" by (auto dest: stuck)
        moreover have "loop_end (ucast req) cur [] (r = Ret ())"
          using pending(2) False by (simp add: loop_end_silent)
        ultimately show ?thesis by blast
      next
        case fault
        then have "log w' = log w @ []" by (auto dest: stuck)
        moreover have "loop_end (ucast req) cur [] (r = Ret ())"
          using fault(2) False by (simp add: loop_end_silent)
        ultimately show ?thesis by blast
      next
        case (go b w1)
        note cb = \<open>call_backoff bk n w = (Ret b, w1)\<close>
        from go(1) obtain q where l1: "log w1 = log w @ [(BackoffCall b, q, q)]"
          by (blast dest: call_backoff_Ret)
        from go(2) show ?thesis
        proof (cases rule: thn_cases)
          case pending
          then have "log w' = log w @ [(BackoffCall b, q, q)]"
            using l1 by (auto dest: stuck)
          moreover have "loop_end (ucast req) cur [(BackoffCall b, q, q)] (r = Ret ())"
            using pending(2) False by (simp add: loop_end_silent)
          ultimately show ?thesis by blast
        next
          case fault
          then have "log w' = log w @ [(BackoffCall b, q, q)]"
            using l1 by (auto dest: stuck)
          moreover have "loop_end (ucast req) cur [(BackoffCall b, q, q)] (r = Ret ())"
            using fault(2) False by (simp add: loop_end_silent)
          ultimately show ?thesis by blast
        next
          case (go c w2)
          from go(1) obtain q' where l2: "log w2 = log w1 @ [(SlotLoad slot c, q', q')]"
            by (blast dest: slot_Load_Ret)
          from "1.IH"(2) [OF False nw cb go(1) go(2)] obtain ext where
            ext: "log w' = log w2 @ ext" "loop_end (ucast req) c ext (r = Ret ())"
            by blast
          have "log w' = log w @ ([(BackoffCall b, q, q)] @ (SlotLoad slot c, q', q') # ext)"
            using l1 l2 ext(1) by simp
          moreover have "loop_end (ucast req) cur
              ([(BackoffCall b, q, q)] @ (SlotLoad slot c, q', q') # ext) (r = Ret ())"
            using False _ _ ext(2) by (rule loop_end_step) simp_all
          ultimately show ?thesis by blast
        qed
      qed
    qed
  qed
qed

lemma WaitHead_loop_end:
  "WaitHead_loop i req cur w = (r, w') \<Longrightarrow>
     \<exists>ext. log w' = log w @ ext \<and> loop_end (ucast req) cur ext (r = Ret True)"
proof (induction i req cur w rule: WaitHead_loop.induct)
  case (1 slot req cur w)
  show ?case
  proof (cases "cur = ucast req")
    case True
    with "1.prems" have "w' = w" "r = Ret True" by (simp_all add: WaitHead_loop.simps)
    with True show ?thesis by (simp add: loop_end_matched)
  next
    case False
    with "1.prems" have
      "thn (finish_return req)
          (\<lambda>stop w'. if stop then ret False w'
                      else thn (slot_WaitAndLoad slot cur)
                             (\<lambda>c. WaitHead_loop slot req c) w') w = (r, w')"
      by (simp add: WaitHead_loop.simps)
    then show ?thesis
    proof (cases rule: thn_cases)
      case pending
      from pending(1) obtain e1 where e1: "log w' = log w @ e1" "tickets (map fst e1) = []"
        by (rule finish_return_silent)
      have "loop_end (ucast req) cur e1 (r = Ret True)"
        using pending(2) False e1(2) by (simp add: loop_end_silent)
      with e1(1) show ?thesis by blast
    next
      case fault
      from fault(1) obtain e1 where e1: "log w' = log w @ e1" "tickets (map fst e1) = []"
        by (rule finish_return_silent)
      have "loop_end (ucast req) cur e1 (r = Ret True)"
        using fault(2) False e1(2) by (simp add: loop_end_silent)
      with e1(1) show ?thesis by blast
    next
      case (go stop w1)
      note fr = \<open>finish_return req w = (Ret stop, w1)\<close>
      from go(1) obtain e1 where e1: "log w1 = log w @ e1" "tickets (map fst e1) = []"
        by (rule finish_return_silent)
      show ?thesis
      proof (cases stop)
        case True
        with go(2) have "w' = w1" "r = Ret False" by (simp_all add: ret_def)
        moreover have "loop_end (ucast req) cur e1 False"
          using False e1(2) by (rule loop_end_silent)
        ultimately show ?thesis using e1(1) by auto
      next
        case ns: False
        with go(2) have
          "thn (slot_WaitAndLoad slot cur) (\<lambda>c. WaitHead_loop slot req c) w1 = (r, w')"
          by simp
        then show ?thesis
        proof (cases rule: thn_cases)
          case pending
          then have "log w' = log w @ e1" using e1(1) by (auto dest: stuck)
          moreover have "loop_end (ucast req) cur e1 (r = Ret True)"
            using pending(2) False e1(2) by (simp add: loop_end_silent)
          ultimately show ?thesis by blast
        next
          case fault
          then have "log w' = log w @ e1" using e1(1) by (auto dest: stuck)
          moreover have "loop_end (ucast req) cur e1 (r = Ret True)"
            using fault(2) False e1(2) by (simp add: loop_end_silent)
          ultimately show ?thesis by blast
        next
          case (go a w2)
          from go(1) obtain q where l2: "log w2 = log w1 @ [(SlotWaitAndLoad slot cur a, q, q)]"
            by (blast dest: slot_WaitAndLoad_Ret)
          from "1.IH" [OF False fr ns go(1) go(2)] obtain ext where
            ext: "log w' = log w2 @ ext" "loop_end (ucast req) a ext (r = Ret True)"
            by blast
          have "log w' = log w @ (e1 @ (SlotWaitAndLoad slot cur a, q, q) # ext)"
            using e1(1) l2 ext(1) by simp
          moreover have
            "loop_end (ucast req) cur (e1 @ (SlotWaitAndLoad slot cur a, q, q) # ext)
               (r = Ret True)"
            using False e1(2) _ ext(2) by (rule loop_end_step) simp
          ultimately show ?thesis by blast
        qed
      qed
    qed
  qed
qed

lemma WaitHead_backoff_loop_end:
  "WaitHead_backoff_loop i req bk n waiting cur w = (r, w') \<Longrightarrow>
     \<exists>ext. log w' = log w @ ext \<and> loop_end (ucast req) cur ext (r = Ret True)"
proof (induction i req bk n waiting cur w rule: WaitHead_backoff_loop.induct)
  case (1 slot req bk n waiting cur w)
  show ?case
  proof (cases "cur = ucast req")
    case True
    with "1.prems" have "w' = w" "r = Ret True" by (simp_all add: WaitHead_backoff_loop.simps)
    with True show ?thesis by (simp add: loop_end_matched)
  next
    case False
    with "1.prems" have
      "thn (finish_return req)
          (\<lambda>stop w'.
             if stop then ret False w'
             else if waiting then
               thn (slot_WaitAndLoad slot cur)
                 (\<lambda>c. WaitHead_backoff_loop slot req bk n waiting c) w'
             else
               thn (call_backoff bk n)
                 (\<lambda>b. thn (slot_Load slot)
                    (\<lambda>c. WaitHead_backoff_loop slot req bk (Suc n) b c)) w') w = (r, w')"
      by (simp add: WaitHead_backoff_loop.simps)
    then show ?thesis
    proof (cases rule: thn_cases)
      case pending
      from pending(1) obtain e1 where e1: "log w' = log w @ e1" "tickets (map fst e1) = []"
        by (rule finish_return_silent)
      have "loop_end (ucast req) cur e1 (r = Ret True)"
        using pending(2) False e1(2) by (simp add: loop_end_silent)
      with e1(1) show ?thesis by blast
    next
      case fault
      from fault(1) obtain e1 where e1: "log w' = log w @ e1" "tickets (map fst e1) = []"
        by (rule finish_return_silent)
      have "loop_end (ucast req) cur e1 (r = Ret True)"
        using fault(2) False e1(2) by (simp add: loop_end_silent)
      with e1(1) show ?thesis by blast
    next
      case (go stop w1)
      note fr = \<open>finish_return req w = (Ret stop, w1)\<close>
      from go(1) obtain e1 where e1: "log w1 = log w @ e1" "tickets (map fst e1) = []"
        by (rule finish_return_silent)
      show ?thesis
      proof (cases stop)
        case True
        with go(2) have "w' = w1" "r = Ret False" by (simp_all add: ret_def)
        moreover have "loop_end (ucast req) cur e1 False"
          using False e1(2) by (rule loop_end_silent)
        ultimately show ?thesis using e1(1) by auto
      next
        case ns: False
        show ?thesis
        proof (cases waiting)
          case True
          with ns go(2) have
            "thn (slot_WaitAndLoad slot cur)
               (\<lambda>c. WaitHead_backoff_loop slot req bk n waiting c) w1 = (r, w')"
            by simp
          then show ?thesis
          proof (cases rule: thn_cases)
            case pending
            then have "log w' = log w @ e1" using e1(1) by (auto dest: stuck)
            moreover have "loop_end (ucast req) cur e1 (r = Ret True)"
              using pending(2) False e1(2) by (simp add: loop_end_silent)
            ultimately show ?thesis by blast
          next
            case fault
            then have "log w' = log w @ e1" using e1(1) by (auto dest: stuck)
            moreover have "loop_end (ucast req) cur e1 (r = Ret True)"
              using fault(2) False e1(2) by (simp add: loop_end_silent)
            ultimately show ?thesis by blast
          next
            case (go a w2)
            from go(1) obtain q where
              l2: "log w2 = log w1 @ [(SlotWaitAndLoad slot cur a, q, q)]"
              by (blast dest: slot_WaitAndLoad_Ret)
            from "1.IH"(1) [OF False fr ns True go(1) go(2)] obtain ext where
              ext: "log w' = log w2 @ ext" "loop_end (ucast req) a ext (r = Ret True)"
              by blast
            have "log w' = log w @ (e1 @ (SlotWaitAndLoad slot cur a, q, q) # ext)"
              using e1(1) l2 ext(1) by simp
            moreover have
              "loop_end (ucast req) cur (e1 @ (SlotWaitAndLoad slot cur a, q, q) # ext)
                 (r = Ret True)"
              using False e1(2) _ ext(2) by (rule loop_end_step) simp
            ultimately show ?thesis by blast
          qed
        next
          case nw: False
          with ns go(2) have
            "thn (call_backoff bk n)
               (\<lambda>b. thn (slot_Load slot)
                  (\<lambda>c. WaitHead_backoff_loop slot req bk (Suc n) b c)) w1 = (r, w')"
            by simp
          then show ?thesis
          proof (cases rule: thn_cases)
            case pending
            then have "log w' = log w @ e1" using e1(1) by (auto dest: stuck)
            moreover have "loop_end (ucast req) cur e1 (r = Ret True)"
              using pending(2) False e1(2) by (simp add: loop_end_silent)
            ultimately show ?thesis by blast
          next
            case fault
            then have "log w' = log w @ e1" using e1(1) by (auto dest: stuck)
            moreover have "loop_end (ucast req) cur e1 (r = Ret True)"
              using fault(2) False e1(2) by (simp add: loop_end_silent)
            ultimately show ?thesis by blast
          next
            case (go b w2)
            note cb = \<open>call_backoff bk n w1 = (Ret b, w2)\<close>
            from go(1) obtain q where l2: "log w2 = log w1 @ [(BackoffCall b, q, q)]"
              by (blast dest: call_backoff_Ret)
            let ?e2 = "e1 @ [(BackoffCall b, q, q)]"
            have e2: "log w2 = log w @ ?e2" "tickets (map fst ?e2) = []"
              using e1 l2 by simp_all
            from go(2) show ?thesis
            proof (cases rule: thn_cases)
              case pending
              then have "log w' = log w @ ?e2" using e2(1) by (auto dest: stuck)
              moreover have "loop_end (ucast req) cur ?e2 (r = Ret True)"
                using pending(2) False e2(2) by (simp add: loop_end_silent)
              ultimately show ?thesis by blast
            next
              case fault
              then have "log w' = log w @ ?e2" using e2(1) by (auto dest: stuck)
              moreover have "loop_end (ucast req) cur ?e2 (r = Ret True)"
                using fault(2) False e2(2) by (simp add: loop_end_silent)
              ultimately show ?thesis by blast
            next
              case (go c w3)
              from go(1) obtain q' where l3: "log w3 = log w2 @ [(SlotLoad slot c, q', q')]"
                by (blast dest: slot_Load_Ret)
              from "1.IH"(2) [OF False fr ns nw cb go(1) go(2)] obtain ext where
                ext: "log w' = log w3 @ ext" "loop_end (ucast req) c ext (r = Ret True)"
                by blast
              have "log w' = log w @ (?e2 @ (SlotLoad slot c, q', q') # ext)"
                using e2(1) l3 ext(1) by simp
              moreover have
                "loop_end (ucast req) cur (?e2 @ (SlotLoad slot c, q', q') # ext) (r = Ret True)"
                using False e2(2) _ ext(2) by (rule loop_end_step) simp
              ultimately show ?thesis by blast
            qed
          qed
        qed
      qed
    qed
  qed
qed

lemma wait_end:
  assumes t: "thn (slot_Load i) loop w = (r, w')"
    and le: "\<And>c w1. loop c w1 = (r, w') \<Longrightarrow> \<exists>x. log w' = log w1 @ x \<and> loop_end c' c x m"
    and nm: "r = Pending \<or> r = Fault \<Longrightarrow> \<not> m"
    and l: "log w' = log w @ ext"
  shows "if m then ext \<noteq> [] \<and> observed (fst (last ext)) = [c']
         else c' \<notin> set (tickets (map fst ext))"
  using t
proof (cases rule: thn_cases)
  case pending
  then have "log w' = log w" by (auto dest: stuck)
  with l have "ext = []" by simp
  with nm pending(2) show ?thesis by simp
next
  case fault
  then have "log w' = log w" by (auto dest: stuck)
  with l have "ext = []" by simp
  with nm fault(2) show ?thesis by simp
next
  case (go c w1)
  from go(1) obtain q where l1: "log w1 = log w @ [(SlotLoad i c, q, q)]"
    by (blast dest: slot_Load_Ret)
  from le [OF go(2)] obtain x where x: "log w' = log w1 @ x" "loop_end c' c x m" by blast
  from l l1 x(1) have e: "ext = (SlotLoad i c, q, q) # x" by simp
  have "observed (fst (SlotLoad i c, q, q)) = [c]" by simp
  from loop_end_first [OF this x(2)] show ?thesis unfolding e by (simp split: if_splits)
qed

lemma wait_tail_run:
  assumes run:
    "(case backoff of None \<Rightarrow> WaitTail i req | Some b \<Rightarrow> WaitTail_backoff i req b) w = (r, w')"
  shows "\<exists>ext. log w' = log w @ ext \<and> list_all (wait_step i) ext \<and>
       (if r = Ret () then ends_at (ucast req) ext
        else ucast req \<notin> set (tickets (map fst ext)))"
proof -
  from wait_tail_log [OF run] obtain ext where
    ext: "log w' = log w @ ext" "list_all (wait_step i) ext"
      "r = Ret () \<longrightarrow> first_match (ucast req) (tickets (map fst ext))"
    by blast
  have e: "if r = Ret () then ext \<noteq> [] \<and> observed (fst (last ext)) = [ucast req]
           else ucast req \<notin> set (tickets (map fst ext))"
  proof (cases backoff)
    case None
    with run have t: "thn (slot_Load i) (WaitTail_loop i req) w = (r, w')"
      by (simp add: WaitTail_def)
    show ?thesis
    proof (rule wait_end [where loop = "WaitTail_loop i req" and m = "r = Ret ()"])
      show "thn (slot_Load i) (WaitTail_loop i req) w = (r, w')" by (rule t)
      show "\<And>c w1. WaitTail_loop i req c w1 = (r, w') \<Longrightarrow>
          \<exists>x. log w' = log w1 @ x \<and> loop_end (ucast req) c x (r = Ret ())"
        by (rule WaitTail_loop_end)
      show "r = Pending \<or> r = Fault \<Longrightarrow> \<not> r = Ret ()" by auto
      show "log w' = log w @ ext" by (rule ext(1))
    qed
  next
    case (Some b)
    with run have t: "thn (slot_Load i) (WaitTail_backoff_loop i req b 0 False) w = (r, w')"
      by (simp add: WaitTail_backoff_def)
    show ?thesis
    proof (rule wait_end [where loop = "WaitTail_backoff_loop i req b 0 False"
          and m = "r = Ret ()"])
      show "thn (slot_Load i) (WaitTail_backoff_loop i req b 0 False) w = (r, w')" by (rule t)
      show "\<And>c w1. WaitTail_backoff_loop i req b 0 False c w1 = (r, w') \<Longrightarrow>
          \<exists>x. log w' = log w1 @ x \<and> loop_end (ucast req) c x (r = Ret ())"
        by (rule WaitTail_backoff_loop_end)
      show "r = Pending \<or> r = Fault \<Longrightarrow> \<not> r = Ret ()" by auto
      show "log w' = log w @ ext" by (rule ext(1))
    qed
  qed
  have "if r = Ret () then ends_at (ucast req) ext
        else ucast req \<notin> set (tickets (map fst ext))"
    using e ext(3) by (simp add: ends_at_def split: if_splits)
  with ext(1,2) show ?thesis by blast
qed

lemma wait_head_run:
  assumes run:
    "(case backoff of None \<Rightarrow> WaitHead i req | Some b \<Rightarrow> WaitHead_backoff i req b) w = (r, w')"
  shows "\<exists>ext. log w' = log w @ ext \<and> list_all (wait_step i) ext \<and>
       (if r = Ret True then ends_at (ucast req) ext
        else ucast req \<notin> set (tickets (map fst ext))) \<and>
       (r = Ret False \<longrightarrow> shutdown_exit req (map fst ext))"
proof -
  from wait_head_log [OF run] obtain ext where
    ext: "log w' = log w @ ext" "list_all (wait_step i) ext"
      "r = Ret True \<longrightarrow> first_match (ucast req) (tickets (map fst ext))"
      "r = Ret False \<longrightarrow> shutdown_exit req (map fst ext)"
    by blast
  have e: "if r = Ret True then ext \<noteq> [] \<and> observed (fst (last ext)) = [ucast req]
           else ucast req \<notin> set (tickets (map fst ext))"
  proof (cases backoff)
    case None
    with run have t: "thn (slot_Load i) (WaitHead_loop i req) w = (r, w')"
      by (simp add: WaitHead_def)
    show ?thesis
    proof (rule wait_end [where loop = "WaitHead_loop i req" and m = "r = Ret True"])
      show "thn (slot_Load i) (WaitHead_loop i req) w = (r, w')" by (rule t)
      show "\<And>c w1. WaitHead_loop i req c w1 = (r, w') \<Longrightarrow>
          \<exists>x. log w' = log w1 @ x \<and> loop_end (ucast req) c x (r = Ret True)"
        by (rule WaitHead_loop_end)
      show "r = Pending \<or> r = Fault \<Longrightarrow> \<not> r = Ret True" by auto
      show "log w' = log w @ ext" by (rule ext(1))
    qed
  next
    case (Some b)
    with run have t: "thn (slot_Load i) (WaitHead_backoff_loop i req b 0 False) w = (r, w')"
      by (simp add: WaitHead_backoff_def)
    show ?thesis
    proof (rule wait_end [where loop = "WaitHead_backoff_loop i req b 0 False"
          and m = "r = Ret True"])
      show "thn (slot_Load i) (WaitHead_backoff_loop i req b 0 False) w = (r, w')" by (rule t)
      show "\<And>c w1. WaitHead_backoff_loop i req b 0 False c w1 = (r, w') \<Longrightarrow>
          \<exists>x. log w' = log w1 @ x \<and> loop_end (ucast req) c x (r = Ret True)"
        by (rule WaitHead_backoff_loop_end)
      show "r = Pending \<or> r = Fault \<Longrightarrow> \<not> r = Ret True" by auto
      show "log w' = log w @ ext" by (rule ext(1))
    qed
  qed
  have "if r = Ret True then ends_at (ucast req) ext
        else ucast req \<notin> set (tickets (map fst ext))"
    using e ext(3) by (simp add: ends_at_def split: if_splits)
  with ext(1,2,4) show ?thesis by blast
qed

subsection \<open>The log of a call, returned or not\<close>

lemma publish_run:
  assumes "thn (slot_assign slot v) (\<lambda>u. WakeHead slot p) w = (r, w')"
  shows "log w' = log w \<and> r \<noteq> Ret () \<or>
      (\<exists>q1 q1'. log w' = log w @ [(ValueAssign slot v, q1, q1')] \<and>
         slot_updated slot (\<lambda>s. s\<lparr>val := v\<rparr>) q1 q1' \<and> r \<noteq> Ret ()) \<or>
      (\<exists>q1 q1' q2.
         log w' = log w @ [(ValueAssign slot v, q1, q1'), (SlotStoreAndWake slot p, q2, queue w')] \<and>
         slot_updated slot (\<lambda>s. s\<lparr>val := v\<rparr>) q1 q1' \<and>
         slot_updated slot (\<lambda>s. s\<lparr>ticket := p\<rparr>) q2 (queue w') \<and> r = Ret ())"
  using assms
proof (cases rule: thn_cases)
  case pending
  then have "log w' = log w" unfolding slot_assign_def by (auto dest: atomic_stuck)
  with pending(2) show ?thesis by simp
next
  case fault
  then have "log w' = log w" unfolding slot_assign_def by (auto dest: atomic_stuck)
  with fault(2) show ?thesis by simp
next
  case (go u w1)
  from go(1) obtain q1 q1' where
    l1: "log w1 = log w @ [(ValueAssign slot v, q1, q1')]" and
    u1: "slot_updated slot (\<lambda>s. s\<lparr>val := v\<rparr>) q1 q1'"
    by (rule slot_assign_Ret)
  show ?thesis
  proof (cases "r = Ret ()")
    case True
    with go(2) have "slot_StoreAndWake slot p w1 = (Ret (), w')" by (simp add: WakeHead_def)
    then obtain q2 where
      l2: "log w' = log w1 @ [(SlotStoreAndWake slot p, q2, queue w')]" and
      u2: "slot_updated slot (\<lambda>s. s\<lparr>ticket := p\<rparr>) q2 (queue w')"
      by (rule slot_StoreAndWake_Ret)
    from l1 l2 have
      "log w' = log w @ [(ValueAssign slot v, q1, q1'), (SlotStoreAndWake slot p, q2, queue w')]"
      by simp
    with u1 u2 True show ?thesis by blast
  next
    case False
    then have "r = Pending \<or> r = Fault" by (cases r) auto
    with go(2) have "log w' = log w1"
      unfolding WakeHead_def slot_StoreAndWake_def by (auto dest: atomic_stuck)
    with l1 u1 False show ?thesis by auto
  qed
qed

lemma take_run:
  assumes "thn (slot_move_out mv slot)
      (\<lambda>v'. thn (WakeTail slot p) (\<lambda>u. ret (True, v'))) w = (r, w')"
  shows "log w' = log w \<and> (r = Pending \<or> r = Fault) \<or>
      (\<exists>v' q1 q1'. log w' = log w @ [(ValueMoveOut slot v', q1, q1')] \<and>
         slot_holds slot v' q1 \<and> slot_updated slot (\<lambda>s. s\<lparr>val := mv (val s)\<rparr>) q1 q1' \<and>
         (r = Pending \<or> r = Fault)) \<or>
      (\<exists>v' q1 q1' q2.
         log w' = log w @ [(ValueMoveOut slot v', q1, q1'), (SlotStoreAndWake slot p, q2, queue w')] \<and>
         slot_holds slot v' q1 \<and> slot_updated slot (\<lambda>s. s\<lparr>val := mv (val s)\<rparr>) q1 q1' \<and>
         slot_updated slot (\<lambda>s. s\<lparr>ticket := p\<rparr>) q2 (queue w') \<and> r = Ret (True, v'))"
  using assms
proof (cases rule: thn_cases)
  case pending
  then have "log w' = log w" unfolding slot_move_out_def by (auto dest: atomic_stuck)
  with pending(2) show ?thesis by simp
next
  case fault
  then have "log w' = log w" unfolding slot_move_out_def by (auto dest: atomic_stuck)
  with fault(2) show ?thesis by simp
next
  case (go v' w1)
  from go(1) obtain q1 q1' where
    l1: "log w1 = log w @ [(ValueMoveOut slot v', q1, q1')]" and
    h1: "slot_holds slot v' q1" and
    u1: "slot_updated slot (\<lambda>s. s\<lparr>val := mv (val s)\<rparr>) q1 q1'"
    by (rule slot_move_out_Ret)
  from go(2) show ?thesis
  proof (cases rule: thn_cases)
    case pending
    then have "log w' = log w1"
      unfolding WakeTail_def slot_StoreAndWake_def by (auto dest: atomic_stuck)
    with l1 h1 u1 pending(2) show ?thesis by auto
  next
    case fault
    then have "log w' = log w1"
      unfolding WakeTail_def slot_StoreAndWake_def by (auto dest: atomic_stuck)
    with l1 h1 u1 fault(2) show ?thesis by auto
  next
    case (go u w2)
    from go(2) have e: "w' = w2" "r = Ret (True, v')" by (simp_all add: ret_def)
    from go(1) e(1) have "slot_StoreAndWake slot p w1 = (Ret u, w')" by (simp add: WakeTail_def)
    then obtain q2 where
      l2: "log w' = log w1 @ [(SlotStoreAndWake slot p, q2, queue w')]" and
      u2: "slot_updated slot (\<lambda>s. s\<lparr>ticket := p\<rparr>) q2 (queue w')"
      by (rule slot_StoreAndWake_Ret)
    from l1 l2 have
      "log w' = log w @ [(ValueMoveOut slot v', q1, q1'), (SlotStoreAndWake slot p, q2, queue w')]"
      by simp
    with h1 u1 u2 e(2) show ?thesis by blast
  qed
qed
lemma Enqueue_run:
  assumes "Enqueue v backoff w = (r, w')" and "log w = []"
  shows "(r = Fault \<longrightarrow> \<not> live (queue w)) \<and> (r = Pending \<longrightarrow> sched w' = []) \<and>
     (r \<noteq> Fault \<longrightarrow> length (log w') + length (sched w') = length (sched w)) \<and>
     (sched w = [] \<and> r = Pending \<and> log w' = [] \<or>
      (\<exists>q wait fin slot.
         slot = unat (tail q AND ucast (mask (queue w))) \<and>
         log w' =
           (TailFetchAdd memory_order_seq_cst (tail q), q, q\<lparr>tail := tail q + 1\<rparr>) # wait @ fin \<and>
         list_all (wait_step slot) wait \<and> list_all reads_ticket wait \<and>
         (if ucast (tail q) \<in> set (tickets (map fst wait))
          then ends_at (ucast (tail q)) wait \<and>
               (fin = [] \<and> r \<noteq> Ret () \<or>
                (\<exists>q1 q1'. fin = [(ValueAssign slot v, q1, q1')] \<and>
                   slot_updated slot (\<lambda>s. s\<lparr>val := v\<rparr>) q1 q1' \<and> r \<noteq> Ret ()) \<or>
                (\<exists>q1 q1' q2.
                   fin = [(ValueAssign slot v, q1, q1'),
                          (SlotStoreAndWake slot (ucast (tail q + 1)), q2, queue w')] \<and>
                   slot_updated slot (\<lambda>s. s\<lparr>val := v\<rparr>) q1 q1' \<and>
                   slot_updated slot (\<lambda>s. s\<lparr>ticket := ucast (tail q + 1)\<rparr>) q2 (queue w') \<and>
                   r = Ret ())) \<and>
               (live (queue w) \<and> length wait + 3 \<le> length (sched w) \<longrightarrow> r = Ret ())
          else fin = [] \<and> r \<noteq> Ret ())))"
  using assms(1) unfolding Enqueue_def
proof (cases rule: thn_cases)
  case pending
  from pending(1) have "sched w = [] \<and> w' = w"
    unfolding tail_fetch_add_def by (rule atomic_Pending)
  with pending(2) assms(2) show ?thesis by simp
next
  case fault
  then show ?thesis by (simp add: fetch_add_no_fault)
next
  case (go t w1)
  from go(1) obtain q where
    l1: "log w1 = log w @ [(TailFetchAdd memory_order_seq_cst t, q, q\<lparr>tail := t + 1\<rparr>)]" and
    t: "t = tail q" and m: "mask (queue w1) = mask (queue w)"
    by (rule tail_fetch_add_Ret)
  define slot where "slot = unat (t AND ucast (mask (queue w)))"
  from go(2) m have rest:
    "thn (case backoff of None \<Rightarrow> WaitTail slot t | Some b \<Rightarrow> WaitTail_backoff slot t b)
       (\<lambda>u. thn (slot_assign slot v) (\<lambda>u. WakeHead slot (ucast (t + 1)))) w1 = (r, w')"
    unfolding slot_def by (simp add: Let_def)
  from go(1) have p1: "proceeds slot w (Ret t) w1" by (rule proceeds_ops)
  have p2: "proceeds slot w1 r w'"
  proof (rule proceeds_thn [OF rest])
    fix r1 w2
    assume "(case backoff of None \<Rightarrow> WaitTail slot t | Some b \<Rightarrow> WaitTail_backoff slot t b) w1
        = (r1, w2)"
    then show "proceeds slot w1 r1 w2" by (rule wait_tail_proceeds)
  next
    fix u w2
    assume "thn (slot_assign slot v) (\<lambda>u. WakeHead slot (ucast (t + 1))) w2 = (r, w')"
    then show "proceeds slot w2 r w'" by (rule publish_proceeds)
  qed
  have lv: "live (queue w) \<Longrightarrow> in_ring slot (queue w)"
    unfolding slot_def by (rule live_in_ring)
  have g1: "r = Fault \<longrightarrow> \<not> live (queue w)"
    using p1 p2 lv by (auto simp: proceeds_def)
  have g2: "r = Pending \<longrightarrow> sched w' = []"
    using p2 by (simp add: proceeds_def)
  have g3: "r \<noteq> Fault \<longrightarrow> length (log w') + length (sched w') = length (sched w)"
    using p1 p2 assms(2) by (auto simp: proceeds_def)
  have g4: "list_all reads_ticket (log w')"
    using p1 p2 assms(2) by (auto simp: proceeds_def loads_tickets_def)
  have "\<exists>wait fin. log w' = log w1 @ wait @ fin \<and> list_all (wait_step slot) wait \<and>
      (if ucast t \<in> set (tickets (map fst wait))
       then ends_at (ucast t) wait \<and>
            (fin = [] \<and> r \<noteq> Ret () \<or>
             (\<exists>q1 q1'. fin = [(ValueAssign slot v, q1, q1')] \<and>
                slot_updated slot (\<lambda>s. s\<lparr>val := v\<rparr>) q1 q1' \<and> r \<noteq> Ret ()) \<or>
             (\<exists>q1 q1' q2.
                fin = [(ValueAssign slot v, q1, q1'),
                       (SlotStoreAndWake slot (ucast (t + 1)), q2, queue w')] \<and>
                slot_updated slot (\<lambda>s. s\<lparr>val := v\<rparr>) q1 q1' \<and>
                slot_updated slot (\<lambda>s. s\<lparr>ticket := ucast (t + 1)\<rparr>) q2 (queue w') \<and>
                r = Ret ()))
       else fin = [] \<and> r \<noteq> Ret ())"
    using rest
  proof (cases rule: thn_cases)
    case pending
    from wait_tail_run [OF pending(1)] obtain wait where
      "log w' = log w1 @ wait @ []" "list_all (wait_step slot) wait"
      "ucast t \<notin> set (tickets (map fst wait))"
      by auto
    with pending(2) show ?thesis by (intro exI [of _ wait] exI [of _ "[]"]) simp
  next
    case fault
    from wait_tail_run [OF fault(1)] obtain wait where
      "log w' = log w1 @ wait @ []" "list_all (wait_step slot) wait"
      "ucast t \<notin> set (tickets (map fst wait))"
      by auto
    with fault(2) show ?thesis by (intro exI [of _ wait] exI [of _ "[]"]) simp
  next
    case (go u w2)
    from wait_tail_run [OF go(1)] obtain wait where
      l2: "log w2 = log w1 @ wait" and ws: "list_all (wait_step slot) wait" and
      ea: "ends_at (ucast t) wait"
      by auto
    from ea have mem: "ucast t \<in> set (tickets (map fst wait))"
      by (simp add: ends_at_def first_match_mem)
    from publish_run [OF go(2)] obtain fin where
      l3: "log w' = log w2 @ fin" and
      d: "fin = [] \<and> r \<noteq> Ret () \<or>
          (\<exists>q1 q1'. fin = [(ValueAssign slot v, q1, q1')] \<and>
             slot_updated slot (\<lambda>s. s\<lparr>val := v\<rparr>) q1 q1' \<and> r \<noteq> Ret ()) \<or>
          (\<exists>q1 q1' q2.
             fin = [(ValueAssign slot v, q1, q1'),
                    (SlotStoreAndWake slot (ucast (t + 1)), q2, queue w')] \<and>
             slot_updated slot (\<lambda>s. s\<lparr>val := v\<rparr>) q1 q1' \<and>
             slot_updated slot (\<lambda>s. s\<lparr>ticket := ucast (t + 1)\<rparr>) q2 (queue w') \<and>
             r = Ret ())"
      by (elim disjE exE conjE) simp_all
    from l2 l3 have "log w' = log w1 @ wait @ fin" by simp
    with ws ea mem d show ?thesis by (intro exI [of _ wait] exI [of _ fin]) simp
  qed
  then obtain wait fin where
    l: "log w' = log w1 @ wait @ fin" and ws: "list_all (wait_step slot) wait" and
    sh: "if ucast t \<in> set (tickets (map fst wait))
       then ends_at (ucast t) wait \<and>
            (fin = [] \<and> r \<noteq> Ret () \<or>
             (\<exists>q1 q1'. fin = [(ValueAssign slot v, q1, q1')] \<and>
                slot_updated slot (\<lambda>s. s\<lparr>val := v\<rparr>) q1 q1' \<and> r \<noteq> Ret ()) \<or>
             (\<exists>q1 q1' q2.
                fin = [(ValueAssign slot v, q1, q1'),
                       (SlotStoreAndWake slot (ucast (t + 1)), q2, queue w')] \<and>
                slot_updated slot (\<lambda>s. s\<lparr>val := v\<rparr>) q1 q1' \<and>
                slot_updated slot (\<lambda>s. s\<lparr>ticket := ucast (t + 1)\<rparr>) q2 (queue w') \<and>
                r = Ret ()))
       else fin = [] \<and> r \<noteq> Ret ()"
    by blast
  have l': "log w' =
      (TailFetchAdd memory_order_seq_cst (tail q), q, q\<lparr>tail := tail q + 1\<rparr>) # wait @ fin"
    using l l1 assms(2) t by simp
  have rt: "list_all reads_ticket wait" using g4 l' by simp
  have pr: "live (queue w) \<and> length wait + 3 \<le> length (sched w) \<longrightarrow> r = Ret ()"
    if "ucast t \<in> set (tickets (map fst wait))"
  proof
    assume a: "live (queue w) \<and> length wait + 3 \<le> length (sched w)"
    from sh that have "r \<noteq> Ret () \<longrightarrow> length fin \<le> 1" by auto
    with a g1 g2 g3 l' show "r = Ret ()" by (cases r) auto
  qed
  have "slot = unat (tail q AND ucast (mask (queue w))) \<and>
         log w' =
           (TailFetchAdd memory_order_seq_cst (tail q), q, q\<lparr>tail := tail q + 1\<rparr>) # wait @ fin \<and>
         list_all (wait_step slot) wait \<and> list_all reads_ticket wait \<and>
         (if ucast (tail q) \<in> set (tickets (map fst wait))
          then ends_at (ucast (tail q)) wait \<and>
               (fin = [] \<and> r \<noteq> Ret () \<or>
                (\<exists>q1 q1'. fin = [(ValueAssign slot v, q1, q1')] \<and>
                   slot_updated slot (\<lambda>s. s\<lparr>val := v\<rparr>) q1 q1' \<and> r \<noteq> Ret ()) \<or>
                (\<exists>q1 q1' q2.
                   fin = [(ValueAssign slot v, q1, q1'),
                          (SlotStoreAndWake slot (ucast (tail q + 1)), q2, queue w')] \<and>
                   slot_updated slot (\<lambda>s. s\<lparr>val := v\<rparr>) q1 q1' \<and>
                   slot_updated slot (\<lambda>s. s\<lparr>ticket := ucast (tail q + 1)\<rparr>) q2 (queue w') \<and>
                   r = Ret ())) \<and>
               (live (queue w) \<and> length wait + 3 \<le> length (sched w) \<longrightarrow> r = Ret ())
          else fin = [] \<and> r \<noteq> Ret ())"
    using l' ws rt sh pr unfolding t [symmetric] slot_def by (simp split: if_splits)
  then have "\<exists>q wait fin slot.
         slot = unat (tail q AND ucast (mask (queue w))) \<and>
         log w' =
           (TailFetchAdd memory_order_seq_cst (tail q), q, q\<lparr>tail := tail q + 1\<rparr>) # wait @ fin \<and>
         list_all (wait_step slot) wait \<and> list_all reads_ticket wait \<and>
         (if ucast (tail q) \<in> set (tickets (map fst wait))
          then ends_at (ucast (tail q)) wait \<and>
               (fin = [] \<and> r \<noteq> Ret () \<or>
                (\<exists>q1 q1'. fin = [(ValueAssign slot v, q1, q1')] \<and>
                   slot_updated slot (\<lambda>s. s\<lparr>val := v\<rparr>) q1 q1' \<and> r \<noteq> Ret ()) \<or>
                (\<exists>q1 q1' q2.
                   fin = [(ValueAssign slot v, q1, q1'),
                          (SlotStoreAndWake slot (ucast (tail q + 1)), q2, queue w')] \<and>
                   slot_updated slot (\<lambda>s. s\<lparr>val := v\<rparr>) q1 q1' \<and>
                   slot_updated slot (\<lambda>s. s\<lparr>ticket := ucast (tail q + 1)\<rparr>) q2 (queue w') \<and>
                   r = Ret ())) \<and>
               (live (queue w) \<and> length wait + 3 \<le> length (sched w) \<longrightarrow> r = Ret ())
          else fin = [] \<and> r \<noteq> Ret ())"
    by (intro exI)
  with g1 g2 g3 show ?thesis by (intro conjI disjI2)
qed

lemma Dequeue_run:
  assumes "Dequeue moved_from v backoff w = (r, w')" and "log w = []"
  shows "(r = Fault \<longrightarrow> \<not> live (queue w)) \<and> (r = Pending \<longrightarrow> sched w' = []) \<and>
     (r \<noteq> Fault \<longrightarrow> length (log w') + length (sched w') = length (sched w)) \<and>
     (sched w = [] \<and> r = Pending \<and> log w' = [] \<or>
      (\<exists>q wait fin slot new_ticket.
         slot = unat (head q AND ucast (mask (queue w))) \<and>
         new_ticket = ucast (head q + ucast (mask (queue w)) + 1) \<and>
         log w' =
           (HeadFetchAdd memory_order_relaxed (head q), q, q\<lparr>head := head q + 1\<rparr>) # wait @ fin \<and>
         list_all (wait_step slot) wait \<and> list_all reads_ticket wait \<and>
         (if ucast (head q + 1) \<in> set (tickets (map fst wait))
          then ends_at (ucast (head q + 1)) wait \<and>
               (fin = [] \<and> (r = Pending \<or> r = Fault) \<or>
                (\<exists>v' q1 q1'. fin = [(ValueMoveOut slot v', q1, q1')] \<and>
                   slot_holds slot v' q1 \<and>
                   slot_updated slot (\<lambda>s. s\<lparr>val := moved_from (val s)\<rparr>) q1 q1' \<and>
                   (r = Pending \<or> r = Fault)) \<or>
                (\<exists>v' q1 q1' q2.
                   fin = [(ValueMoveOut slot v', q1, q1'),
                          (SlotStoreAndWake slot new_ticket, q2, queue w')] \<and>
                   slot_holds slot v' q1 \<and>
                   slot_updated slot (\<lambda>s. s\<lparr>val := moved_from (val s)\<rparr>) q1 q1' \<and>
                   slot_updated slot (\<lambda>s. s\<lparr>ticket := new_ticket\<rparr>) q2 (queue w') \<and>
                   r = Ret (True, v'))) \<and>
               (live (queue w) \<and> length wait + 3 \<le> length (sched w) \<longrightarrow>
                  (\<exists>v'. r = Ret (True, v')))
          else fin = [] \<and>
               (r = Pending \<or> r = Fault \<or>
                r = Ret (False, v) \<and> shutdown_exit (head q + 1) (map fst wait)))))"
  using assms(1) unfolding Dequeue_def
proof (cases rule: thn_cases)
  case pending
  from pending(1) have "sched w = [] \<and> w' = w"
    unfolding head_fetch_add_def by (rule atomic_Pending)
  with pending(2) assms(2) show ?thesis by simp
next
  case fault
  then show ?thesis by (simp add: fetch_add_no_fault)
next
  case (go h w1)
  from go(1) obtain q where
    l1: "log w1 = log w @ [(HeadFetchAdd memory_order_relaxed h, q, q\<lparr>head := h + 1\<rparr>)]" and
    h: "h = head q" and m: "mask (queue w1) = mask (queue w)"
    by (rule head_fetch_add_Ret)
  define slot where "slot = unat (h AND ucast (mask (queue w)))"
  define new_ticket :: u32 where "new_ticket = ucast (h + ucast (mask (queue w)) + 1)"
  from go(2) have rest:
    "thn (case backoff of None \<Rightarrow> WaitHead slot (h + 1)
          | Some b \<Rightarrow> WaitHead_backoff slot (h + 1) b)
       (\<lambda>ok. if \<not> ok then ret (False, v)
            else thn (slot_move_out moved_from slot)
                   (\<lambda>v'. thn (WakeTail slot new_ticket) (\<lambda>u. ret (True, v')))) w1 = (r, w')"
    unfolding Let_def m slot_def new_ticket_def .
  from go(1) have p1: "proceeds slot w (Ret h) w1" by (rule proceeds_ops)
  have p2: "proceeds slot w1 r w'"
  proof (rule proceeds_thn [OF rest])
    fix r1 w2
    assume "(case backoff of None \<Rightarrow> WaitHead slot (h + 1)
             | Some b \<Rightarrow> WaitHead_backoff slot (h + 1) b) w1 = (r1, w2)"
    then show "proceeds slot w1 r1 w2" by (rule wait_head_proceeds)
  next
    fix ok w2
    assume k: "(if \<not> ok then ret (False, v)
            else thn (slot_move_out moved_from slot)
                   (\<lambda>v'. thn (WakeTail slot new_ticket) (\<lambda>u. ret (True, v')))) w2 = (r, w')"
    show "proceeds slot w2 r w'"
    proof (cases ok)
      case False
      with k have "ret (False, v) w2 = (r, w')" by simp
      then show ?thesis by (rule proceeds_ret)
    next
      case True
      with k have "thn (slot_move_out moved_from slot)
          (\<lambda>v'. thn (WakeTail slot new_ticket) (\<lambda>u. ret (True, v'))) w2 = (r, w')"
        by simp
      then show ?thesis by (rule take_proceeds)
    qed
  qed
  have lv: "live (queue w) \<Longrightarrow> in_ring slot (queue w)"
    unfolding slot_def by (rule live_in_ring)
  have g1: "r = Fault \<longrightarrow> \<not> live (queue w)"
    using p1 p2 lv by (auto simp: proceeds_def)
  have g2: "r = Pending \<longrightarrow> sched w' = []"
    using p2 by (simp add: proceeds_def)
  have g3: "r \<noteq> Fault \<longrightarrow> length (log w') + length (sched w') = length (sched w)"
    using p1 p2 assms(2) by (auto simp: proceeds_def)
  have g4: "list_all reads_ticket (log w')"
    using p1 p2 assms(2) by (auto simp: proceeds_def loads_tickets_def)
  have "\<exists>wait fin. log w' = log w1 @ wait @ fin \<and> list_all (wait_step slot) wait \<and>
      (if ucast (h + 1) \<in> set (tickets (map fst wait))
       then ends_at (ucast (h + 1)) wait \<and>
            (fin = [] \<and> (r = Pending \<or> r = Fault) \<or>
             (\<exists>v' q1 q1'. fin = [(ValueMoveOut slot v', q1, q1')] \<and>
                slot_holds slot v' q1 \<and>
                slot_updated slot (\<lambda>s. s\<lparr>val := moved_from (val s)\<rparr>) q1 q1' \<and>
                (r = Pending \<or> r = Fault)) \<or>
             (\<exists>v' q1 q1' q2.
                fin = [(ValueMoveOut slot v', q1, q1'),
                       (SlotStoreAndWake slot new_ticket, q2, queue w')] \<and>
                slot_holds slot v' q1 \<and>
                slot_updated slot (\<lambda>s. s\<lparr>val := moved_from (val s)\<rparr>) q1 q1' \<and>
                slot_updated slot (\<lambda>s. s\<lparr>ticket := new_ticket\<rparr>) q2 (queue w') \<and>
                r = Ret (True, v')))
       else fin = [] \<and>
            (r = Pending \<or> r = Fault \<or>
             r = Ret (False, v) \<and> shutdown_exit (h + 1) (map fst wait)))"
    using rest
  proof (cases rule: thn_cases)
    case pending
    from wait_head_run [OF pending(1)] obtain wait where
      "log w' = log w1 @ wait @ []" "list_all (wait_step slot) wait"
      "ucast (h + 1) \<notin> set (tickets (map fst wait))"
      by auto
    with pending(2) show ?thesis by (intro exI [of _ wait] exI [of _ "[]"]) simp
  next
    case fault
    from wait_head_run [OF fault(1)] obtain wait where
      "log w' = log w1 @ wait @ []" "list_all (wait_step slot) wait"
      "ucast (h + 1) \<notin> set (tickets (map fst wait))"
      by auto
    with fault(2) show ?thesis by (intro exI [of _ wait] exI [of _ "[]"]) simp
  next
    case (go ok w2)
    show ?thesis
    proof (cases ok)
      case False
      with go(2) have e: "w' = w2" "r = Ret (False, v)" by (simp_all add: ret_def)
      from wait_head_run [OF go(1)] False obtain wait where
        "log w2 = log w1 @ wait @ []" "list_all (wait_step slot) wait"
        "ucast (h + 1) \<notin> set (tickets (map fst wait))"
        "shutdown_exit (h + 1) (map fst wait)"
        by auto
      with e show ?thesis by (intro exI [of _ wait] exI [of _ "[]"]) simp
    next
      case True
      with go(2) have tk: "thn (slot_move_out moved_from slot)
          (\<lambda>v'. thn (WakeTail slot new_ticket) (\<lambda>u. ret (True, v'))) w2 = (r, w')"
        by simp
      from wait_head_run [OF go(1)] True obtain wait where
        l2: "log w2 = log w1 @ wait" and ws: "list_all (wait_step slot) wait" and
        ea: "ends_at (ucast (h + 1)) wait"
        by auto
      from ea have mem: "ucast (h + 1) \<in> set (tickets (map fst wait))"
        by (simp add: ends_at_def first_match_mem)
      from take_run [OF tk] obtain fin where
        l3: "log w' = log w2 @ fin" and
        d: "fin = [] \<and> (r = Pending \<or> r = Fault) \<or>
             (\<exists>v' q1 q1'. fin = [(ValueMoveOut slot v', q1, q1')] \<and>
                slot_holds slot v' q1 \<and>
                slot_updated slot (\<lambda>s. s\<lparr>val := moved_from (val s)\<rparr>) q1 q1' \<and>
                (r = Pending \<or> r = Fault)) \<or>
             (\<exists>v' q1 q1' q2.
                fin = [(ValueMoveOut slot v', q1, q1'),
                       (SlotStoreAndWake slot new_ticket, q2, queue w')] \<and>
                slot_holds slot v' q1 \<and>
                slot_updated slot (\<lambda>s. s\<lparr>val := moved_from (val s)\<rparr>) q1 q1' \<and>
                slot_updated slot (\<lambda>s. s\<lparr>ticket := new_ticket\<rparr>) q2 (queue w') \<and>
                r = Ret (True, v'))"
        by (elim disjE exE conjE) simp_all
      from l2 l3 have "log w' = log w1 @ wait @ fin" by simp
      with ws ea mem d show ?thesis by (intro exI [of _ wait] exI [of _ fin]) simp
    qed
  qed
  then obtain wait fin where
    l: "log w' = log w1 @ wait @ fin" and ws: "list_all (wait_step slot) wait" and
    sh: "if ucast (h + 1) \<in> set (tickets (map fst wait))
       then ends_at (ucast (h + 1)) wait \<and>
            (fin = [] \<and> (r = Pending \<or> r = Fault) \<or>
             (\<exists>v' q1 q1'. fin = [(ValueMoveOut slot v', q1, q1')] \<and>
                slot_holds slot v' q1 \<and>
                slot_updated slot (\<lambda>s. s\<lparr>val := moved_from (val s)\<rparr>) q1 q1' \<and>
                (r = Pending \<or> r = Fault)) \<or>
             (\<exists>v' q1 q1' q2.
                fin = [(ValueMoveOut slot v', q1, q1'),
                       (SlotStoreAndWake slot new_ticket, q2, queue w')] \<and>
                slot_holds slot v' q1 \<and>
                slot_updated slot (\<lambda>s. s\<lparr>val := moved_from (val s)\<rparr>) q1 q1' \<and>
                slot_updated slot (\<lambda>s. s\<lparr>ticket := new_ticket\<rparr>) q2 (queue w') \<and>
                r = Ret (True, v')))
       else fin = [] \<and>
            (r = Pending \<or> r = Fault \<or>
             r = Ret (False, v) \<and> shutdown_exit (h + 1) (map fst wait))"
    by blast
  have l': "log w' =
      (HeadFetchAdd memory_order_relaxed (head q), q, q\<lparr>head := head q + 1\<rparr>) # wait @ fin"
    using l l1 assms(2) h by simp
  have rt: "list_all reads_ticket wait" using g4 l' by simp
  have pr: "live (queue w) \<and> length wait + 3 \<le> length (sched w) \<longrightarrow>
      (\<exists>v'. r = Ret (True, v'))"
    if "ucast (h + 1) \<in> set (tickets (map fst wait))"
  proof
    assume a: "live (queue w) \<and> length wait + 3 \<le> length (sched w)"
    from sh that have "(\<exists>v'. r = Ret (True, v')) \<or> (r = Pending \<or> r = Fault) \<and> length fin \<le> 1"
      by auto
    with a g1 g2 g3 l' show "\<exists>v'. r = Ret (True, v')" by (cases r) auto
  qed
  have "slot = unat (head q AND ucast (mask (queue w))) \<and>
         new_ticket = ucast (head q + ucast (mask (queue w)) + 1) \<and>
         log w' =
           (HeadFetchAdd memory_order_relaxed (head q), q, q\<lparr>head := head q + 1\<rparr>) # wait @ fin \<and>
         list_all (wait_step slot) wait \<and> list_all reads_ticket wait \<and>
         (if ucast (head q + 1) \<in> set (tickets (map fst wait))
          then ends_at (ucast (head q + 1)) wait \<and>
               (fin = [] \<and> (r = Pending \<or> r = Fault) \<or>
                (\<exists>v' q1 q1'. fin = [(ValueMoveOut slot v', q1, q1')] \<and>
                   slot_holds slot v' q1 \<and>
                   slot_updated slot (\<lambda>s. s\<lparr>val := moved_from (val s)\<rparr>) q1 q1' \<and>
                   (r = Pending \<or> r = Fault)) \<or>
                (\<exists>v' q1 q1' q2.
                   fin = [(ValueMoveOut slot v', q1, q1'),
                          (SlotStoreAndWake slot new_ticket, q2, queue w')] \<and>
                   slot_holds slot v' q1 \<and>
                   slot_updated slot (\<lambda>s. s\<lparr>val := moved_from (val s)\<rparr>) q1 q1' \<and>
                   slot_updated slot (\<lambda>s. s\<lparr>ticket := new_ticket\<rparr>) q2 (queue w') \<and>
                   r = Ret (True, v'))) \<and>
               (live (queue w) \<and> length wait + 3 \<le> length (sched w) \<longrightarrow>
                  (\<exists>v'. r = Ret (True, v')))
          else fin = [] \<and>
               (r = Pending \<or> r = Fault \<or>
                r = Ret (False, v) \<and> shutdown_exit (head q + 1) (map fst wait)))"
    using l' ws rt sh pr unfolding h [symmetric] slot_def new_ticket_def by (simp split: if_splits)
  then have "\<exists>q wait fin slot new_ticket.
         slot = unat (head q AND ucast (mask (queue w))) \<and>
         new_ticket = ucast (head q + ucast (mask (queue w)) + 1) \<and>
         log w' =
           (HeadFetchAdd memory_order_relaxed (head q), q, q\<lparr>head := head q + 1\<rparr>) # wait @ fin \<and>
         list_all (wait_step slot) wait \<and> list_all reads_ticket wait \<and>
         (if ucast (head q + 1) \<in> set (tickets (map fst wait))
          then ends_at (ucast (head q + 1)) wait \<and>
               (fin = [] \<and> (r = Pending \<or> r = Fault) \<or>
                (\<exists>v' q1 q1'. fin = [(ValueMoveOut slot v', q1, q1')] \<and>
                   slot_holds slot v' q1 \<and>
                   slot_updated slot (\<lambda>s. s\<lparr>val := moved_from (val s)\<rparr>) q1 q1' \<and>
                   (r = Pending \<or> r = Fault)) \<or>
                (\<exists>v' q1 q1' q2.
                   fin = [(ValueMoveOut slot v', q1, q1'),
                          (SlotStoreAndWake slot new_ticket, q2, queue w')] \<and>
                   slot_holds slot v' q1 \<and>
                   slot_updated slot (\<lambda>s. s\<lparr>val := moved_from (val s)\<rparr>) q1 q1' \<and>
                   slot_updated slot (\<lambda>s. s\<lparr>ticket := new_ticket\<rparr>) q2 (queue w') \<and>
                   r = Ret (True, v'))) \<and>
               (live (queue w) \<and> length wait + 3 \<le> length (sched w) \<longrightarrow>
                  (\<exists>v'. r = Ret (True, v')))
          else fin = [] \<and>
               (r = Pending \<or> r = Fault \<or>
                r = Ret (False, v) \<and> shutdown_exit (head q + 1) (map fst wait)))"
    by (intro exI)
  with g1 g2 g3 show ?thesis by (intro conjI disjI2)
qed

section \<open>The claims\<close>

subsection \<open>Construction and move\<close>

text \<open>
  Claim C4. The constructor throws \<open>invalid_argument\<close> exactly when the capacity is zero
  or not a power of two, \<open>bad_alloc\<close> exactly when the capacity is valid and the aligned
  allocation fails, and returns a queue exactly when the capacity is valid and the
  allocation succeeds.
\<close>

theorem ctor_errors:
  "(BoundedQueue_ctor memalign_ok fresh sz = Inl invalid_argument) =
      (sz = 0 \<or> \<not> (\<exists>k<32. sz = 2 ^ k)) \<and>
   (BoundedQueue_ctor memalign_ok fresh sz = Inl bad_alloc) =
      ((\<exists>k<32. sz = 2 ^ k) \<and> \<not> memalign_ok) \<and>
   (\<exists>q. BoundedQueue_ctor memalign_ok fresh sz = Inr q) =
      ((\<exists>k<32. sz = 2 ^ k) \<and> memalign_ok)"
proof -
  have v: "(\<exists>k<32. sz = 2 ^ k) = (sz \<noteq> 0 \<and> sz AND (sz - 1) = 0)"
    using word_pow2_and [of sz] by simp
  show ?thesis unfolding v by (auto simp: BoundedQueue_ctor_def Let_def)
qed

theorem ctor_errors_witness:
  "BoundedQueue_ctor True (\<lambda>i. \<lparr>ticket = 99, val = i\<rparr>) 0 = Inl invalid_argument \<and>
   BoundedQueue_ctor True (\<lambda>i. \<lparr>ticket = 99, val = i\<rparr>) 6 = Inl invalid_argument \<and>
   BoundedQueue_ctor False (\<lambda>i. \<lparr>ticket = 99, val = i\<rparr>) 8 = Inl bad_alloc \<and>
   (\<exists>q. BoundedQueue_ctor True (\<lambda>i. \<lparr>ticket = 99, val = i\<rparr>) 8 = Inr q)"
proof -
  have p8: "\<exists>k<32. (8::u32) = 2 ^ k" by (rule exI [of _ 3]) simp
  have n6: "\<not> (\<exists>k<32. (6::u32) = 2 ^ k)"
    using word_pow2_and [of "6::u32"] by simp
  show ?thesis
    using ctor_errors [of True "\<lambda>i. \<lparr>ticket = 99, val = i\<rparr>" 0]
      ctor_errors [of True "\<lambda>i. \<lparr>ticket = 99, val = i\<rparr>" 6]
      ctor_errors [of False "\<lambda>i. \<lparr>ticket = 99, val = i\<rparr>" 8]
      ctor_errors [of True "\<lambda>i. \<lparr>ticket = 99, val = i\<rparr>" 8] p8 n6
    by simp
qed

text \<open>
  Claim C7. For every valid capacity (a power of two below \<open>2^32\<close>) whose allocation
  succeeds, the constructor returns a queue with \<open>N\<close> slots where slot \<open>i\<close> has ticket
  \<open>i\<close> (and the value the placement \<open>new\<close> gave it), \<open>head = 0\<close>, \<open>tail = 0\<close> and the finish
  flag false.
\<close>

theorem ctor_initial_state:
  assumes "\<exists>k<32. sz = 2 ^ k" and "memalign_ok"
  shows "\<exists>r. BoundedQueue_ctor memalign_ok fresh sz =
             Inr \<lparr>ring = Some r, mask = sz - 1, finish = False, head = 0, tail = 0\<rparr> \<and>
           length r = unat sz \<and>
           (\<forall>i<unat sz. ticket (r ! i) = of_nat i \<and> val (r ! i) = val (fresh i))"
proof -
  from assms(1) have v: "sz \<noteq> 0" "sz AND (sz - 1) = 0"
    using word_pow2_and [of sz] by auto
  let ?r = "init_tickets 0 sz (map fresh [0..<unat sz])"
  have "BoundedQueue_ctor memalign_ok fresh sz =
          Inr \<lparr>ring = Some ?r, mask = sz - 1, finish = False, head = 0, tail = 0\<rparr>"
    using v assms(2) by (simp add: BoundedQueue_ctor_def Let_def)
  moreover have "length ?r = unat sz" by simp
  moreover have "\<forall>i<unat sz. ticket (?r ! i) = of_nat i \<and> val (?r ! i) = val (fresh i)"
    by (simp add: init_tickets_nth)
  ultimately show ?thesis by blast
qed

theorem ctor_initial_state_witness:
  "(\<exists>k<32. (4::u32) = 2 ^ k) \<and>
   (\<exists>r. BoundedQueue_ctor True (\<lambda>i. \<lparr>ticket = 99, val = i\<rparr>) 4 =
            Inr \<lparr>ring = Some r, mask = 3, finish = False, head = 0, tail = 0\<rparr> \<and>
          length r = 4 \<and>
          r ! 0 = \<lparr>ticket = 0, val = 0\<rparr> \<and> r ! 1 = \<lparr>ticket = 1, val = 1\<rparr> \<and>
          r ! 2 = \<lparr>ticket = 2, val = 2\<rparr> \<and> r ! 3 = \<lparr>ticket = 3, val = 3\<rparr>)"
proof -
  have h: "\<exists>k<32. (4::u32) = 2 ^ k" by (rule exI [of _ 2]) simp
  from ctor_initial_state [OF h, of True "\<lambda>i. \<lparr>ticket = 99, val = i\<rparr>"]
  obtain r where r:
    "BoundedQueue_ctor True (\<lambda>i. \<lparr>ticket = 99, val = i\<rparr>) 4 =
       Inr \<lparr>ring = Some r, mask = 4 - 1, finish = False, head = 0, tail = 0\<rparr>"
    "length r = unat (4::u32)"
    "\<forall>i<unat (4::u32). ticket (r ! i) = of_nat i \<and> val (r ! i) = val (\<lparr>ticket = 99::u32, val = i\<rparr>)"
    by blast
  from r(3) have "ticket (r ! 0) = 0 \<and> val (r ! 0) = 0" "ticket (r ! 1) = 1 \<and> val (r ! 1) = 1"
    "ticket (r ! 2) = 2 \<and> val (r ! 2) = 2" "ticket (r ! 3) = 3 \<and> val (r ! 3) = 3"
    by simp_all
  then have "r ! 0 = \<lparr>ticket = 0, val = 0\<rparr>" "r ! 1 = \<lparr>ticket = 1, val = 1\<rparr>"
    "r ! 2 = \<lparr>ticket = 2, val = 2\<rparr>" "r ! 3 = \<lparr>ticket = 3, val = 3\<rparr>"
    by simp_all
  with h r(1,2) show ?thesis by simp
qed

text \<open>
  Claim C10. The move constructor gives the new queue the ring and the mask of the old one
  and nothing else: its \<open>head\<close> and \<open>tail\<close> are \<open>0\<close> and its finish flag is false whatever
  the old queue held. The old queue is left with a null ring, and \<open>Destroy\<close> on it destroys
  no slot and frees nothing.
\<close>

theorem move_ctor_state:
  "BoundedQueue_move other =
     (\<lparr>ring = ring other, mask = mask other, finish = False, head = 0, tail = 0\<rparr>,
      other\<lparr>ring := None\<rparr>) \<and>
   ring (snd (BoundedQueue_move other)) = None \<and>
   head (fst (BoundedQueue_move other)) = 0 \<and>
   tail (fst (BoundedQueue_move other)) = 0 \<and>
   finish (fst (BoundedQueue_move other)) = False \<and>
   Destroy (snd (BoundedQueue_move other)) = []"
  by (simp add: BoundedQueue_move_def Destroy_def)

subsection \<open>Enqueue and Dequeue\<close>

text \<open>
  Claim C2. Every \<open>Enqueue\<close>, whatever its outcome, takes these steps in this order and
  stops before the last of them only where the schedule ends: a sequentially consistent
  fetch-add of \<open>tail\<close> that yields the reservation \<open>t\<close>; loads of the ticket of slot
  \<open>t & mask\<close> (and calls of the backoff, when one is given) that change nothing, each
  load returning the ticket the slot has at that moment, up to the first load that returns
  the low 32 bits of \<open>t\<close>, which is the last step of the wait; the
  assignment of the value to that slot; and \<open>StoreAndWake\<close> on that slot with the low 32
  bits of \<open>t + 1\<close>, which makes them the ticket of the slot. As long as no load has returned
  the low 32 bits of \<open>t\<close> the call does nothing but wait, and it returns exactly when it
  has taken the last step. Each step uses one entry of the schedule, the call is pending
  only with the schedule used up, and it faults only on a queue that is not live: on a live
  queue an \<open>Enqueue\<close> whose load returns the low 32 bits of \<open>t\<close> returns as soon as the
  schedule has room for the two steps that remain.
\<close>

theorem Enqueue_steps:
  assumes "Enqueue v backoff w = (r, w')" and "log w = []"
  shows "(r = Fault \<longrightarrow> \<not> live (queue w)) \<and> (r = Pending \<longrightarrow> sched w' = []) \<and>
     (r \<noteq> Fault \<longrightarrow> length (log w') + length (sched w') = length (sched w)) \<and>
     (sched w = [] \<and> r = Pending \<and> log w' = [] \<or>
      (\<exists>q wait fin slot.
         slot = unat (tail q AND ucast (mask (queue w))) \<and>
         log w' =
           (TailFetchAdd memory_order_seq_cst (tail q), q, q\<lparr>tail := tail q + 1\<rparr>) # wait @ fin \<and>
         list_all (wait_step slot) wait \<and> list_all reads_ticket wait \<and>
         (if ucast (tail q) \<in> set (tickets (map fst wait))
          then ends_at (ucast (tail q)) wait \<and>
               (fin = [] \<and> r \<noteq> Ret () \<or>
                (\<exists>q1 q1'. fin = [(ValueAssign slot v, q1, q1')] \<and>
                   slot_updated slot (\<lambda>s. s\<lparr>val := v\<rparr>) q1 q1' \<and> r \<noteq> Ret ()) \<or>
                (\<exists>q1 q1' q2.
                   fin = [(ValueAssign slot v, q1, q1'),
                          (SlotStoreAndWake slot (ucast (tail q + 1)), q2, queue w')] \<and>
                   slot_updated slot (\<lambda>s. s\<lparr>val := v\<rparr>) q1 q1' \<and>
                   slot_updated slot (\<lambda>s. s\<lparr>ticket := ucast (tail q + 1)\<rparr>) q2 (queue w') \<and>
                   r = Ret ())) \<and>
               (live (queue w) \<and> length wait + 3 \<le> length (sched w) \<longrightarrow> r = Ret ())
          else fin = [] \<and> r \<noteq> Ret ())))"
  using assms by (rule Enqueue_run)

theorem Enqueue_steps_witness:
  "fst (Enqueue (30::nat) None
          \<lparr>queue = \<lparr>ring = Some [\<lparr>ticket = 4294967295, val = 10\<rparr>, \<lparr>ticket = 0, val = 20\<rparr>],
                     mask = 1, finish = False, head = 4294967294, tail = 4294967296\<rparr>,
            sched = [[], [], [OtherHeadFetchAdd, OtherStoreAndWake 0 0], [], []],
            log = []\<rparr>) = Ret () \<and>
   map fst (log (snd (Enqueue (30::nat) None
          \<lparr>queue = \<lparr>ring = Some [\<lparr>ticket = 4294967295, val = 10\<rparr>, \<lparr>ticket = 0, val = 20\<rparr>],
                     mask = 1, finish = False, head = 4294967294, tail = 4294967296\<rparr>,
            sched = [[], [], [OtherHeadFetchAdd, OtherStoreAndWake 0 0], [], []],
            log = []\<rparr>))) =
     [TailFetchAdd memory_order_seq_cst 4294967296, SlotLoad 0 4294967295,
      SlotWaitAndLoad 0 4294967295 0, ValueAssign 0 30, SlotStoreAndWake 0 1] \<and>
   ring (queue (snd (Enqueue (30::nat) None
          \<lparr>queue = \<lparr>ring = Some [\<lparr>ticket = 4294967295, val = 10\<rparr>, \<lparr>ticket = 0, val = 20\<rparr>],
                     mask = 1, finish = False, head = 4294967294, tail = 4294967296\<rparr>,
            sched = [[], [], [OtherHeadFetchAdd, OtherStoreAndWake 0 0], [], []],
            log = []\<rparr>))) = Some [\<lparr>ticket = 1, val = 30\<rparr>, \<lparr>ticket = 0, val = 20\<rparr>] \<and>
   (\<exists>q wait q1 q1' q2 slot.
      slot = unat (tail q AND ucast (1::u32)) \<and>
      log (snd (Enqueue (30::nat) None
          \<lparr>queue = \<lparr>ring = Some [\<lparr>ticket = 4294967295, val = 10\<rparr>, \<lparr>ticket = 0, val = 20\<rparr>],
                     mask = 1, finish = False, head = 4294967294, tail = 4294967296\<rparr>,
            sched = [[], [], [OtherHeadFetchAdd, OtherStoreAndWake 0 0], [], []],
            log = []\<rparr>)) =
        (TailFetchAdd memory_order_seq_cst (tail q), q, q\<lparr>tail := tail q + 1\<rparr>) # wait @
        [(ValueAssign slot 30, q1, q1'),
         (SlotStoreAndWake slot (ucast (tail q + 1)), q2,
          queue (snd (Enqueue (30::nat) None
          \<lparr>queue = \<lparr>ring = Some [\<lparr>ticket = 4294967295, val = 10\<rparr>, \<lparr>ticket = 0, val = 20\<rparr>],
                     mask = 1, finish = False, head = 4294967294, tail = 4294967296\<rparr>,
            sched = [[], [], [OtherHeadFetchAdd, OtherStoreAndWake 0 0], [], []],
            log = []\<rparr>)))] \<and>
      list_all (wait_step slot) wait \<and> list_all reads_ticket wait \<and>
      ends_at (ucast (tail q)) wait \<and>
      slot_updated slot (\<lambda>s. s\<lparr>val := 30\<rparr>) q1 q1' \<and>
      slot_updated slot (\<lambda>s. s\<lparr>ticket := ucast (tail q + 1)\<rparr>) q2
        (queue (snd (Enqueue (30::nat) None
          \<lparr>queue = \<lparr>ring = Some [\<lparr>ticket = 4294967295, val = 10\<rparr>, \<lparr>ticket = 0, val = 20\<rparr>],
                     mask = 1, finish = False, head = 4294967294, tail = 4294967296\<rparr>,
            sched = [[], [], [OtherHeadFetchAdd, OtherStoreAndWake 0 0], [], []],
            log = []\<rparr>)))) \<and>
   fst (Enqueue (30::nat) None
          \<lparr>queue = \<lparr>ring = Some [\<lparr>ticket = 4294967295, val = 10\<rparr>, \<lparr>ticket = 0, val = 20\<rparr>],
                     mask = 1, finish = False, head = 4294967294, tail = 4294967296\<rparr>,
            sched = [[], [], [OtherHeadFetchAdd, OtherStoreAndWake 0 0], []],
            log = []\<rparr>) = Pending \<and>
   map fst (log (snd (Enqueue (30::nat) None
          \<lparr>queue = \<lparr>ring = Some [\<lparr>ticket = 4294967295, val = 10\<rparr>, \<lparr>ticket = 0, val = 20\<rparr>],
                     mask = 1, finish = False, head = 4294967294, tail = 4294967296\<rparr>,
            sched = [[], [], [OtherHeadFetchAdd, OtherStoreAndWake 0 0], []],
            log = []\<rparr>))) =
     [TailFetchAdd memory_order_seq_cst 4294967296, SlotLoad 0 4294967295,
      SlotWaitAndLoad 0 4294967295 0, ValueAssign 0 30]"
proof -
  let ?w = "\<lparr>queue = \<lparr>ring = Some [\<lparr>ticket = 4294967295, val = 10\<rparr>, \<lparr>ticket = 0, val = 20\<rparr>],
                     mask = 1, finish = False, head = 4294967294, tail = 4294967296\<rparr>,
            sched = [[], [], [OtherHeadFetchAdd, OtherStoreAndWake 0 0], [], []],
            log = []\<rparr>"
  let ?w4 = "\<lparr>queue = \<lparr>ring = Some [\<lparr>ticket = 4294967295, val = 10\<rparr>, \<lparr>ticket = 0, val = 20\<rparr>],
                     mask = 1, finish = False, head = 4294967294, tail = 4294967296\<rparr>,
            sched = [[], [], [OtherHeadFetchAdd, OtherStoreAndWake 0 0], []],
            log = []\<rparr>"
  have gen: "\<exists>q wait q1 q1' q2 slot.
      slot = unat (tail q AND ucast (mask (queue w))) \<and>
      log w' =
        (TailFetchAdd memory_order_seq_cst (tail q), q, q\<lparr>tail := tail q + 1\<rparr>) # wait @
        [(ValueAssign slot v, q1, q1'),
         (SlotStoreAndWake slot (ucast (tail q + 1)), q2, queue w')] \<and>
      list_all (wait_step slot) wait \<and> list_all reads_ticket wait \<and>
      ends_at (ucast (tail q)) wait \<and>
      slot_updated slot (\<lambda>s. s\<lparr>val := v\<rparr>) q1 q1' \<and>
      slot_updated slot (\<lambda>s. s\<lparr>ticket := ucast (tail q + 1)\<rparr>) q2 (queue w')"
    if "Enqueue v None w = (Ret (), w')" and "log w = []" and "sched w \<noteq> []"
    for v :: nat and w w'
    using Enqueue_steps [OF that(1,2)] that(3) by (auto split: if_splits)
  have r: "fst (Enqueue (30::nat) None ?w) = Ret ()" by code_simp
  then have e: "Enqueue (30::nat) None ?w = (Ret (), snd (Enqueue (30::nat) None ?w))"
    by (simp add: prod_eq_iff)
  have l: "map fst (log (snd (Enqueue (30::nat) None ?w))) =
     [TailFetchAdd memory_order_seq_cst 4294967296, SlotLoad 0 4294967295,
      SlotWaitAndLoad 0 4294967295 0, ValueAssign 0 30, SlotStoreAndWake 0 1]"
    by code_simp
  have g: "ring (queue (snd (Enqueue (30::nat) None ?w))) =
      Some [\<lparr>ticket = 1, val = 30\<rparr>, \<lparr>ticket = 0, val = 20\<rparr>]"
    by code_simp
  have r4: "fst (Enqueue (30::nat) None ?w4) = Pending" by code_simp
  have l4: "map fst (log (snd (Enqueue (30::nat) None ?w4))) =
     [TailFetchAdd memory_order_seq_cst 4294967296, SlotLoad 0 4294967295,
      SlotWaitAndLoad 0 4294967295 0, ValueAssign 0 30]"
    by code_simp
  from gen [OF e] r l g r4 l4 show ?thesis by simp
qed



text \<open>
  Claim C6. A \<open>Dequeue\<close> that returns \<open>false\<close> leaves the caller's value as it was, has
  taken no step but the fetch-add of \<open>head\<close> and reads (the last two being the load of the
  raised finish flag and the load of \<open>tail\<close>), and every one of its steps leaves the whole
  ring, tickets and values, as the step found it.
\<close>

theorem Dequeue_aborted:
  assumes "Dequeue moved_from v backoff w = (Ret (False, v'), w')" and "log w = []"
  shows "v' = v \<and>
         (\<exists>q wait slot.
            slot = unat (head q AND ucast (mask (queue w))) \<and>
            log w' =
              (HeadFetchAdd memory_order_relaxed (head q), q, q\<lparr>head := head q + 1\<rparr>) # wait \<and>
            list_all (wait_step slot) wait \<and>
            shutdown_exit (head q + 1) (map fst wait)) \<and>
         list_all ring_kept (log w')"
proof -
  from assms obtain q wait slot where
    f: "v' = v"
    "slot = unat (head q AND ucast (mask (queue w)))"
    "log w' =
       (HeadFetchAdd memory_order_relaxed (head q), q, q\<lparr>head := head q + 1\<rparr>) # wait"
    "list_all (wait_step slot) wait"
    "shutdown_exit (head q + 1) (map fst wait)"
    by (rule Dequeue_returned_false)
  have "list_all ring_kept (log w')"
    using f(3) wait_step_ring_kept [OF f(4)] by (simp add: ring_kept_def)
  with f show ?thesis by blast
qed

theorem Dequeue_aborted_witness:
  "fst (Dequeue (\<lambda>x. x) (5::nat) None
          \<lparr>queue = \<lparr>ring = Some [\<lparr>ticket = 0, val = 0\<rparr>, \<lparr>ticket = 1, val = 0\<rparr>], mask = 1, finish = False, head = 0, tail = 0\<rparr>, sched = [[], [], [OtherFinishStore], []], log = []\<rparr>) = Ret (False, 5) \<and>
   map fst (log (snd (Dequeue (\<lambda>x. x) (5::nat) None
          \<lparr>queue = \<lparr>ring = Some [\<lparr>ticket = 0, val = 0\<rparr>, \<lparr>ticket = 1, val = 0\<rparr>], mask = 1, finish = False, head = 0, tail = 0\<rparr>, sched = [[], [], [OtherFinishStore], []], log = []\<rparr>))) =
     [HeadFetchAdd memory_order_relaxed 0, SlotLoad 0 0, FinishLoad memory_order_relaxed True,
      TailLoad memory_order_seq_cst 0] \<and>
   list_all ring_kept (log (snd (Dequeue (\<lambda>x. x) (5::nat) None
          \<lparr>queue = \<lparr>ring = Some [\<lparr>ticket = 0, val = 0\<rparr>, \<lparr>ticket = 1, val = 0\<rparr>], mask = 1, finish = False, head = 0, tail = 0\<rparr>, sched = [[], [], [OtherFinishStore], []], log = []\<rparr>))) \<and>
   ring (queue (snd (Dequeue (\<lambda>x. x) (5::nat) None
          \<lparr>queue = \<lparr>ring = Some [\<lparr>ticket = 0, val = 0\<rparr>, \<lparr>ticket = 1, val = 0\<rparr>], mask = 1, finish = False, head = 0, tail = 0\<rparr>, sched = [[], [], [OtherFinishStore], []], log = []\<rparr>))) = Some [\<lparr>ticket = 0, val = 0\<rparr>, \<lparr>ticket = 1, val = 0\<rparr>]"
proof -
  let ?w = "\<lparr>queue = \<lparr>ring = Some [\<lparr>ticket = 0, val = 0\<rparr>, \<lparr>ticket = 1, val = 0\<rparr>], mask = 1, finish = False, head = 0, tail = 0\<rparr>, sched = [[], [], [OtherFinishStore], []], log = []\<rparr>"
  have r: "fst (Dequeue (\<lambda>x. x) (5::nat) None ?w) = Ret (False, 5)" by code_simp
  then have e: "Dequeue (\<lambda>x. x) (5::nat) None ?w =
      (Ret (False, 5), snd (Dequeue (\<lambda>x. x) (5::nat) None ?w))"
    by (simp add: prod_eq_iff)
  have l: "map fst (log (snd (Dequeue (\<lambda>x. x) (5::nat) None ?w))) =
     [HeadFetchAdd memory_order_relaxed 0, SlotLoad 0 0, FinishLoad memory_order_relaxed True,
      TailLoad memory_order_seq_cst 0]"
    by code_simp
  have g: "ring (queue (snd (Dequeue (\<lambda>x. x) (5::nat) None ?w))) =
      Some [\<lparr>ticket = 0, val = 0\<rparr>, \<lparr>ticket = 1, val = 0\<rparr>]"
    by code_simp
  from Dequeue_aborted [OF e] have
    "list_all ring_kept (log (snd (Dequeue (\<lambda>x. x) (5::nat) None ?w)))"
    by simp
  with r l g show ?thesis by (intro conjI)
qed

text \<open>
  Claim C1. The code does not do what the claim says. The consumer with reservation
  \<open>h = 0\<close> on a queue of capacity 2 loads the ticket of slot 0 before any producer has
  come. Then a producer enqueues 7 (it reserves \<open>t = 0\<close>, so \<open>tail\<close> becomes 1, writes the
  slot and publishes ticket 1) and \<open>Finish\<close> is called. The consumer's next iteration reads
  the raised flag and \<open>tail = 1\<close>, compares \<open>required_ticket = h + 1 = 1 >= 1\<close> and returns
  \<open>false\<close>, although \<open>h < tail\<close>: the reserved slot holds the value 7 under the very ticket
  the consumer waits for, and no later \<open>Dequeue\<close> will take reservation 0 again.
\<close>

theorem Dequeue_abandons_reserved_slot:
  "fst (Dequeue (\<lambda>x. x) (0::nat) None \<lparr>queue = \<lparr>ring = Some [\<lparr>ticket = 0, val = 0::nat\<rparr>, \<lparr>ticket = 1, val = 0\<rparr>], mask = 1, finish = False, head = 0, tail = 0\<rparr>, sched = [[], [], [OtherTailFetchAdd, OtherValueAssign 0 7, OtherStoreAndWake 0 1, OtherFinishStore], []], log = []\<rparr>) = Ret (False, 0) \<and>
   map fst (log (snd (Dequeue (\<lambda>x. x) (0::nat) None \<lparr>queue = \<lparr>ring = Some [\<lparr>ticket = 0, val = 0::nat\<rparr>, \<lparr>ticket = 1, val = 0\<rparr>], mask = 1, finish = False, head = 0, tail = 0\<rparr>, sched = [[], [], [OtherTailFetchAdd, OtherValueAssign 0 7, OtherStoreAndWake 0 1, OtherFinishStore], []], log = []\<rparr>))) =
     [HeadFetchAdd memory_order_relaxed 0, SlotLoad 0 0, FinishLoad memory_order_relaxed True,
      TailLoad memory_order_seq_cst 1] \<and>
   queue (snd (Dequeue (\<lambda>x. x) (0::nat) None \<lparr>queue = \<lparr>ring = Some [\<lparr>ticket = 0, val = 0::nat\<rparr>, \<lparr>ticket = 1, val = 0\<rparr>], mask = 1, finish = False, head = 0, tail = 0\<rparr>, sched = [[], [], [OtherTailFetchAdd, OtherValueAssign 0 7, OtherStoreAndWake 0 1, OtherFinishStore], []], log = []\<rparr>)) = \<lparr>ring = Some [\<lparr>ticket = 1, val = 7\<rparr>, \<lparr>ticket = 1, val = 0\<rparr>], mask = 1, finish = True, head = 1, tail = 1\<rparr> \<and>
   queue (snd (Finish (snd (Enqueue (7::nat) None
       \<lparr>queue = \<lparr>ring = Some [\<lparr>ticket = 0, val = 0::nat\<rparr>, \<lparr>ticket = 1, val = 0\<rparr>], mask = 1, finish = False, head = 1, tail = 0\<rparr>, sched = [[], [], [], []], log = []\<rparr>)
       \<lparr>sched := [[], [], []]\<rparr>))) =
     interfere [OtherTailFetchAdd, OtherValueAssign 0 7, OtherStoreAndWake 0 1, OtherFinishStore]
       \<lparr>ring = Some [\<lparr>ticket = 0, val = 0::nat\<rparr>, \<lparr>ticket = 1, val = 0\<rparr>], mask = 1, finish = False, head = 1, tail = 0\<rparr>"
  by code_simp

text \<open>
  Claim C5. For every 64-bit reservation and every outcome of the call, the wait loop goes
  on exactly as long as the ticket it loads differs from the required ticket reduced modulo
  \<open>2^32\<close>, and the ticket published is the 64-bit successor value reduced modulo \<open>2^32\<close>. An
  \<open>Enqueue\<close> with reservation \<open>t\<close> waits on slot \<open>t & mask\<close> for \<open>c = t mod 2^32\<close>: every load
  returns the ticket the slot has at that moment, the load that returns \<open>c\<close> is the last
  step of the wait, no earlier load has returned \<open>c\<close>, no ticket is loaded afterwards,
  and as long as no load has returned \<open>c\<close> nothing but the wait is done. When
  the call returns, a load has returned \<open>c\<close> and its last step is \<open>StoreAndWake\<close> with
  \<open>p = (t + 1) mod 2^32\<close>, after which \<open>p\<close> is the ticket of the slot. A \<open>Dequeue\<close> with
  reservation \<open>h\<close> does the same with \<open>c = (h + 1) mod 2^32\<close> and
  \<open>p = (h + mask + 1) mod 2^32\<close>. On a live queue the call returns as soon as a load has
  returned \<open>c\<close> and the schedule has room for the two steps that remain. So what the
  producer of reservation \<open>r\<close> publishes is what the consumer of \<open>r\<close> waits for, and what
  the consumer of \<open>h\<close> publishes is what the producer of reservation \<open>h + mask + 1\<close> waits
  for, also where the 32-bit ticket wraps.
\<close>

theorem ticket_truncation:
  "(Enqueue v backoff w = (r, w') \<and> log w = [] \<and> log w' \<noteq> [] \<longrightarrow>
      (\<exists>t c p q wait fin slot.
         log w' = (TailFetchAdd memory_order_seq_cst t, q, q\<lparr>tail := t + 1\<rparr>) # wait @ fin \<and>
         unat c = unat t mod 2 ^ 32 \<and>
         unat p = unat (t + 1) mod 2 ^ 32 \<and> unat p = (unat t + 1) mod 2 ^ 32 \<and>
         slot = unat (t AND ucast (mask (queue w))) \<and>
         list_all (wait_step slot) wait \<and> list_all reads_ticket wait \<and>
         (if c \<in> set (tickets (map fst wait)) then ends_at c wait else fin = []) \<and>
         tickets (map fst fin) = [] \<and>
         (if r = Ret ()
          then c \<in> set (tickets (map fst wait)) \<and>
               (\<exists>s1 q2. fin = [s1, (SlotStoreAndWake slot p, q2, queue w')] \<and>
                  slot_updated slot (\<lambda>s. s\<lparr>ticket := p\<rparr>) q2 (queue w'))
          else length fin \<le> 1) \<and>
         (live (queue w) \<and> c \<in> set (tickets (map fst wait)) \<and>
            length wait + 3 \<le> length (sched w) \<longrightarrow> r = Ret ()))) \<and>
   (Dequeue moved_from v backoff w = (rd, wd) \<and> log w = [] \<and> log wd \<noteq> [] \<longrightarrow>
      (\<exists>h c p q wait fin slot.
         log wd = (HeadFetchAdd memory_order_relaxed h, q, q\<lparr>head := h + 1\<rparr>) # wait @ fin \<and>
         unat c = unat (h + 1) mod 2 ^ 32 \<and> unat c = (unat h + 1) mod 2 ^ 32 \<and>
         unat p = unat (h + ucast (mask (queue w)) + 1) mod 2 ^ 32 \<and>
         unat p = (unat h + (unat (mask (queue w)) + 1)) mod 2 ^ 32 \<and>
         slot = unat (h AND ucast (mask (queue w))) \<and>
         list_all (wait_step slot) wait \<and> list_all reads_ticket wait \<and>
         (if c \<in> set (tickets (map fst wait)) then ends_at c wait else fin = []) \<and>
         tickets (map fst fin) = [] \<and>
         (if \<exists>v'. rd = Ret (True, v')
          then c \<in> set (tickets (map fst wait)) \<and>
               (\<exists>s1 q2. fin = [s1, (SlotStoreAndWake slot p, q2, queue wd)] \<and>
                  slot_updated slot (\<lambda>s. s\<lparr>ticket := p\<rparr>) q2 (queue wd))
          else length fin \<le> 1) \<and>
         (live (queue w) \<and> c \<in> set (tickets (map fst wait)) \<and>
            length wait + 3 \<le> length (sched w) \<longrightarrow> (\<exists>v'. rd = Ret (True, v')))))"
proof (intro conjI impI)
  assume "Enqueue v backoff w = (r, w') \<and> log w = [] \<and> log w' \<noteq> []"
  then have a: "Enqueue v backoff w = (r, w')" "log w = []" "log w' \<noteq> []" by simp_all
  have "sched w = [] \<and> r = Pending \<and> log w' = [] \<or>
      (\<exists>q wait fin slot.
         slot = unat (tail q AND ucast (mask (queue w))) \<and>
         log w' =
           (TailFetchAdd memory_order_seq_cst (tail q), q, q\<lparr>tail := tail q + 1\<rparr>) # wait @ fin \<and>
         list_all (wait_step slot) wait \<and> list_all reads_ticket wait \<and>
         (if ucast (tail q) \<in> set (tickets (map fst wait))
          then ends_at (ucast (tail q)) wait \<and>
               (fin = [] \<and> r \<noteq> Ret () \<or>
                (\<exists>q1 q1'. fin = [(ValueAssign slot v, q1, q1')] \<and>
                   slot_updated slot (\<lambda>s. s\<lparr>val := v\<rparr>) q1 q1' \<and> r \<noteq> Ret ()) \<or>
                (\<exists>q1 q1' q2.
                   fin = [(ValueAssign slot v, q1, q1'),
                          (SlotStoreAndWake slot (ucast (tail q + 1)), q2, queue w')] \<and>
                   slot_updated slot (\<lambda>s. s\<lparr>val := v\<rparr>) q1 q1' \<and>
                   slot_updated slot (\<lambda>s. s\<lparr>ticket := ucast (tail q + 1)\<rparr>) q2 (queue w') \<and>
                   r = Ret ())) \<and>
               (live (queue w) \<and> length wait + 3 \<le> length (sched w) \<longrightarrow> r = Ret ())
          else fin = [] \<and> r \<noteq> Ret ()))"
    using Enqueue_run [OF a(1,2)] by (elim conjE)
  with a(3) obtain q wait fin slot where
    sl: "slot = unat (tail q AND ucast (mask (queue w)))" and
    l: "log w' =
         (TailFetchAdd memory_order_seq_cst (tail q), q, q\<lparr>tail := tail q + 1\<rparr>) # wait @ fin" and
    ws: "list_all (wait_step slot) wait" and
    rt: "list_all reads_ticket wait" and
    sh: "if ucast (tail q) \<in> set (tickets (map fst wait))
          then ends_at (ucast (tail q)) wait \<and>
               (fin = [] \<and> r \<noteq> Ret () \<or>
                (\<exists>q1 q1'. fin = [(ValueAssign slot v, q1, q1')] \<and>
                   slot_updated slot (\<lambda>s. s\<lparr>val := v\<rparr>) q1 q1' \<and> r \<noteq> Ret ()) \<or>
                (\<exists>q1 q1' q2.
                   fin = [(ValueAssign slot v, q1, q1'),
                          (SlotStoreAndWake slot (ucast (tail q + 1)), q2, queue w')] \<and>
                   slot_updated slot (\<lambda>s. s\<lparr>val := v\<rparr>) q1 q1' \<and>
                   slot_updated slot (\<lambda>s. s\<lparr>ticket := ucast (tail q + 1)\<rparr>) q2 (queue w') \<and>
                   r = Ret ())) \<and>
               (live (queue w) \<and> length wait + 3 \<le> length (sched w) \<longrightarrow> r = Ret ())
          else fin = [] \<and> r \<noteq> Ret ()"
    by (elim disjE exE conjE) (simp, rule that)
  define c :: u32 where "c = ucast (tail q)"
  define p :: u32 where "p = ucast (tail q + 1)"
  have c1: "unat c = unat (tail q) mod 2 ^ 32" unfolding c_def by (rule unat_ucast_down)
  have p1: "unat p = unat (tail q + 1) mod 2 ^ 32" unfolding p_def by (rule unat_ucast_down)
  have p2: "unat p = (unat (tail q) + 1) mod 2 ^ 32" unfolding p_def by (rule unat_ucast_succ)
  from sh have s1: "if c \<in> set (tickets (map fst wait)) then ends_at c wait else fin = []"
    unfolding c_def by (simp split: if_splits)
  from sh have s2: "tickets (map fst fin) = []"
    by (auto split: if_splits)
  from sh have s3: "if r = Ret ()
          then c \<in> set (tickets (map fst wait)) \<and>
               (\<exists>s1 q2. fin = [s1, (SlotStoreAndWake slot p, q2, queue w')] \<and>
                  slot_updated slot (\<lambda>s. s\<lparr>ticket := p\<rparr>) q2 (queue w'))
          else length fin \<le> 1"
    unfolding c_def p_def by (auto split: if_splits)
  from sh have s4: "live (queue w) \<and> c \<in> set (tickets (map fst wait)) \<and>
            length wait + 3 \<le> length (sched w) \<longrightarrow> r = Ret ()"
    unfolding c_def by (simp split: if_splits)
  from l c1 p1 p2 sl ws rt s1 s2 s3 s4
  have "log w' = (TailFetchAdd memory_order_seq_cst (tail q), q, q\<lparr>tail := tail q + 1\<rparr>) # wait @ fin \<and>
         unat c = unat (tail q) mod 2 ^ 32 \<and>
         unat p = unat (tail q + 1) mod 2 ^ 32 \<and> unat p = (unat (tail q) + 1) mod 2 ^ 32 \<and>
         slot = unat (tail q AND ucast (mask (queue w))) \<and>
         list_all (wait_step slot) wait \<and> list_all reads_ticket wait \<and>
         (if c \<in> set (tickets (map fst wait)) then ends_at c wait else fin = []) \<and>
         tickets (map fst fin) = [] \<and>
         (if r = Ret ()
          then c \<in> set (tickets (map fst wait)) \<and>
               (\<exists>s1 q2. fin = [s1, (SlotStoreAndWake slot p, q2, queue w')] \<and>
                  slot_updated slot (\<lambda>s. s\<lparr>ticket := p\<rparr>) q2 (queue w'))
          else length fin \<le> 1) \<and>
         (live (queue w) \<and> c \<in> set (tickets (map fst wait)) \<and>
            length wait + 3 \<le> length (sched w) \<longrightarrow> r = Ret ())"
    by (intro conjI) simp_all
  then show "\<exists>t c p q wait fin slot.
         log w' = (TailFetchAdd memory_order_seq_cst t, q, q\<lparr>tail := t + 1\<rparr>) # wait @ fin \<and>
         unat c = unat t mod 2 ^ 32 \<and>
         unat p = unat (t + 1) mod 2 ^ 32 \<and> unat p = (unat t + 1) mod 2 ^ 32 \<and>
         slot = unat (t AND ucast (mask (queue w))) \<and>
         list_all (wait_step slot) wait \<and> list_all reads_ticket wait \<and>
         (if c \<in> set (tickets (map fst wait)) then ends_at c wait else fin = []) \<and>
         tickets (map fst fin) = [] \<and>
         (if r = Ret ()
          then c \<in> set (tickets (map fst wait)) \<and>
               (\<exists>s1 q2. fin = [s1, (SlotStoreAndWake slot p, q2, queue w')] \<and>
                  slot_updated slot (\<lambda>s. s\<lparr>ticket := p\<rparr>) q2 (queue w'))
          else length fin \<le> 1) \<and>
         (live (queue w) \<and> c \<in> set (tickets (map fst wait)) \<and>
            length wait + 3 \<le> length (sched w) \<longrightarrow> r = Ret ())"
    by (intro exI)
next
  assume "Dequeue moved_from v backoff w = (rd, wd) \<and> log w = [] \<and> log wd \<noteq> []"
  then have a: "Dequeue moved_from v backoff w = (rd, wd)" "log w = []" "log wd \<noteq> []"
    by simp_all
  have "sched w = [] \<and> rd = Pending \<and> log wd = [] \<or>
      (\<exists>q wait fin slot new_ticket.
         slot = unat (head q AND ucast (mask (queue w))) \<and>
         new_ticket = ucast (head q + ucast (mask (queue w)) + 1) \<and>
         log wd =
           (HeadFetchAdd memory_order_relaxed (head q), q, q\<lparr>head := head q + 1\<rparr>) # wait @ fin \<and>
         list_all (wait_step slot) wait \<and> list_all reads_ticket wait \<and>
         (if ucast (head q + 1) \<in> set (tickets (map fst wait))
          then ends_at (ucast (head q + 1)) wait \<and>
               (fin = [] \<and> (rd = Pending \<or> rd = Fault) \<or>
                (\<exists>v' q1 q1'. fin = [(ValueMoveOut slot v', q1, q1')] \<and>
                   slot_holds slot v' q1 \<and>
                   slot_updated slot (\<lambda>s. s\<lparr>val := moved_from (val s)\<rparr>) q1 q1' \<and>
                   (rd = Pending \<or> rd = Fault)) \<or>
                (\<exists>v' q1 q1' q2.
                   fin = [(ValueMoveOut slot v', q1, q1'),
                          (SlotStoreAndWake slot new_ticket, q2, queue wd)] \<and>
                   slot_holds slot v' q1 \<and>
                   slot_updated slot (\<lambda>s. s\<lparr>val := moved_from (val s)\<rparr>) q1 q1' \<and>
                   slot_updated slot (\<lambda>s. s\<lparr>ticket := new_ticket\<rparr>) q2 (queue wd) \<and>
                   rd = Ret (True, v'))) \<and>
               (live (queue w) \<and> length wait + 3 \<le> length (sched w) \<longrightarrow>
                  (\<exists>v'. rd = Ret (True, v')))
          else fin = [] \<and>
               (rd = Pending \<or> rd = Fault \<or>
                rd = Ret (False, v) \<and> shutdown_exit (head q + 1) (map fst wait))))"
    using Dequeue_run [OF a(1,2)] by (elim conjE)
  with a(3) obtain q wait fin slot new_ticket where
    sl: "slot = unat (head q AND ucast (mask (queue w)))" and
    nt: "new_ticket = ucast (head q + ucast (mask (queue w)) + 1)" and
    l: "log wd =
         (HeadFetchAdd memory_order_relaxed (head q), q, q\<lparr>head := head q + 1\<rparr>) # wait @ fin" and
    ws: "list_all (wait_step slot) wait" and
    rt: "list_all reads_ticket wait" and
    sh: "if ucast (head q + 1) \<in> set (tickets (map fst wait))
          then ends_at (ucast (head q + 1)) wait \<and>
               (fin = [] \<and> (rd = Pending \<or> rd = Fault) \<or>
                (\<exists>v' q1 q1'. fin = [(ValueMoveOut slot v', q1, q1')] \<and>
                   slot_holds slot v' q1 \<and>
                   slot_updated slot (\<lambda>s. s\<lparr>val := moved_from (val s)\<rparr>) q1 q1' \<and>
                   (rd = Pending \<or> rd = Fault)) \<or>
                (\<exists>v' q1 q1' q2.
                   fin = [(ValueMoveOut slot v', q1, q1'),
                          (SlotStoreAndWake slot new_ticket, q2, queue wd)] \<and>
                   slot_holds slot v' q1 \<and>
                   slot_updated slot (\<lambda>s. s\<lparr>val := moved_from (val s)\<rparr>) q1 q1' \<and>
                   slot_updated slot (\<lambda>s. s\<lparr>ticket := new_ticket\<rparr>) q2 (queue wd) \<and>
                   rd = Ret (True, v'))) \<and>
               (live (queue w) \<and> length wait + 3 \<le> length (sched w) \<longrightarrow>
                  (\<exists>v'. rd = Ret (True, v')))
          else fin = [] \<and>
               (rd = Pending \<or> rd = Fault \<or>
                rd = Ret (False, v) \<and> shutdown_exit (head q + 1) (map fst wait))"
    by (elim disjE exE conjE) (simp, rule that)
  define c :: u32 where "c = ucast (head q + 1)"
  have c1: "unat c = unat (head q + 1) mod 2 ^ 32" unfolding c_def by (rule unat_ucast_down)
  have c2: "unat c = (unat (head q) + 1) mod 2 ^ 32" unfolding c_def by (rule unat_ucast_succ)
  have p1: "unat new_ticket = unat (head q + ucast (mask (queue w)) + 1) mod 2 ^ 32"
    unfolding nt by (rule unat_ucast_down)
  have p2: "unat new_ticket = (unat (head q) + (unat (mask (queue w)) + 1)) mod 2 ^ 32"
    unfolding nt by (rule unat_ucast_wrap)
  from sh have s1: "if c \<in> set (tickets (map fst wait)) then ends_at c wait else fin = []"
    unfolding c_def by (simp split: if_splits)
  from sh have s2: "tickets (map fst fin) = []"
    by (auto split: if_splits)
  from sh have s3: "if \<exists>v'. rd = Ret (True, v')
          then c \<in> set (tickets (map fst wait)) \<and>
               (\<exists>s1 q2. fin = [s1, (SlotStoreAndWake slot new_ticket, q2, queue wd)] \<and>
                  slot_updated slot (\<lambda>s. s\<lparr>ticket := new_ticket\<rparr>) q2 (queue wd))
          else length fin \<le> 1"
    unfolding c_def by (auto split: if_splits)
  from sh have s4: "live (queue w) \<and> c \<in> set (tickets (map fst wait)) \<and>
            length wait + 3 \<le> length (sched w) \<longrightarrow> (\<exists>v'. rd = Ret (True, v'))"
    unfolding c_def by (simp split: if_splits)
  from l c1 c2 p1 p2 sl ws rt s1 s2 s3 s4
  have "log wd =
           (HeadFetchAdd memory_order_relaxed (head q), q, q\<lparr>head := head q + 1\<rparr>) # wait @ fin \<and>
         unat c = unat (head q + 1) mod 2 ^ 32 \<and> unat c = (unat (head q) + 1) mod 2 ^ 32 \<and>
         unat new_ticket = unat (head q + ucast (mask (queue w)) + 1) mod 2 ^ 32 \<and>
         unat new_ticket = (unat (head q) + (unat (mask (queue w)) + 1)) mod 2 ^ 32 \<and>
         slot = unat (head q AND ucast (mask (queue w))) \<and>
         list_all (wait_step slot) wait \<and> list_all reads_ticket wait \<and>
         (if c \<in> set (tickets (map fst wait)) then ends_at c wait else fin = []) \<and>
         tickets (map fst fin) = [] \<and>
         (if \<exists>v'. rd = Ret (True, v')
          then c \<in> set (tickets (map fst wait)) \<and>
               (\<exists>s1 q2. fin = [s1, (SlotStoreAndWake slot new_ticket, q2, queue wd)] \<and>
                  slot_updated slot (\<lambda>s. s\<lparr>ticket := new_ticket\<rparr>) q2 (queue wd))
          else length fin \<le> 1) \<and>
         (live (queue w) \<and> c \<in> set (tickets (map fst wait)) \<and>
            length wait + 3 \<le> length (sched w) \<longrightarrow> (\<exists>v'. rd = Ret (True, v')))"
    by (intro conjI) simp_all
  then show "\<exists>h c p q wait fin slot.
         log wd = (HeadFetchAdd memory_order_relaxed h, q, q\<lparr>head := h + 1\<rparr>) # wait @ fin \<and>
         unat c = unat (h + 1) mod 2 ^ 32 \<and> unat c = (unat h + 1) mod 2 ^ 32 \<and>
         unat p = unat (h + ucast (mask (queue w)) + 1) mod 2 ^ 32 \<and>
         unat p = (unat h + (unat (mask (queue w)) + 1)) mod 2 ^ 32 \<and>
         slot = unat (h AND ucast (mask (queue w))) \<and>
         list_all (wait_step slot) wait \<and> list_all reads_ticket wait \<and>
         (if c \<in> set (tickets (map fst wait)) then ends_at c wait else fin = []) \<and>
         tickets (map fst fin) = [] \<and>
         (if \<exists>v'. rd = Ret (True, v')
          then c \<in> set (tickets (map fst wait)) \<and>
               (\<exists>s1 q2. fin = [s1, (SlotStoreAndWake slot p, q2, queue wd)] \<and>
                  slot_updated slot (\<lambda>s. s\<lparr>ticket := p\<rparr>) q2 (queue wd))
          else length fin \<le> 1) \<and>
         (live (queue w) \<and> c \<in> set (tickets (map fst wait)) \<and>
            length wait + 3 \<le> length (sched w) \<longrightarrow> (\<exists>v'. rd = Ret (True, v')))"
    by (intro exI)
qed

theorem ticket_truncation_witness:
  "fst (Enqueue (7::nat) None
          \<lparr>queue = \<lparr>ring = Some [\<lparr>ticket = 4294967295, val = 6\<rparr>, \<lparr>ticket = 4294967294, val = 5\<rparr>], mask = 1, finish = False, head = 8589934589, tail = 8589934591\<rparr>, sched = [[], [], [OtherHeadFetchAdd, OtherStoreAndWake 1 4294967295], [], []], log = []\<rparr>) = Ret () \<and>
   map fst (log (snd (Enqueue (7::nat) None
          \<lparr>queue = \<lparr>ring = Some [\<lparr>ticket = 4294967295, val = 6\<rparr>, \<lparr>ticket = 4294967294, val = 5\<rparr>], mask = 1, finish = False, head = 8589934589, tail = 8589934591\<rparr>, sched = [[], [], [OtherHeadFetchAdd, OtherStoreAndWake 1 4294967295], [], []], log = []\<rparr>))) =
     [TailFetchAdd memory_order_seq_cst 8589934591, SlotLoad 1 4294967294,
      SlotWaitAndLoad 1 4294967294 4294967295, ValueAssign 1 7, SlotStoreAndWake 1 0] \<and>
   ring (queue (snd (Enqueue (7::nat) None
          \<lparr>queue = \<lparr>ring = Some [\<lparr>ticket = 4294967295, val = 6\<rparr>, \<lparr>ticket = 4294967294, val = 5\<rparr>], mask = 1, finish = False, head = 8589934589, tail = 8589934591\<rparr>, sched = [[], [], [OtherHeadFetchAdd, OtherStoreAndWake 1 4294967295], [], []], log = []\<rparr>))) =
     Some [\<lparr>ticket = 4294967295, val = 6\<rparr>, \<lparr>ticket = 0, val = 7\<rparr>] \<and>
   (\<exists>t c p q wait s1 slot q2.
      log (snd (Enqueue (7::nat) None
          \<lparr>queue = \<lparr>ring = Some [\<lparr>ticket = 4294967295, val = 6\<rparr>, \<lparr>ticket = 4294967294, val = 5\<rparr>], mask = 1, finish = False, head = 8589934589, tail = 8589934591\<rparr>, sched = [[], [], [OtherHeadFetchAdd, OtherStoreAndWake 1 4294967295], [], []], log = []\<rparr>)) =
        (TailFetchAdd memory_order_seq_cst t, q, q\<lparr>tail := t + 1\<rparr>) # wait @
        [s1, (SlotStoreAndWake slot p, q2, queue (snd (Enqueue (7::nat) None
          \<lparr>queue = \<lparr>ring = Some [\<lparr>ticket = 4294967295, val = 6\<rparr>, \<lparr>ticket = 4294967294, val = 5\<rparr>], mask = 1, finish = False, head = 8589934589, tail = 8589934591\<rparr>, sched = [[], [], [OtherHeadFetchAdd, OtherStoreAndWake 1 4294967295], [], []], log = []\<rparr>)))] \<and>
      unat c = unat t mod 2 ^ 32 \<and> unat p = (unat t + 1) mod 2 ^ 32 \<and>
      ends_at c wait \<and> list_all reads_ticket wait \<and>
      slot_updated slot (\<lambda>s. s\<lparr>ticket := p\<rparr>) q2 (queue (snd (Enqueue (7::nat) None
          \<lparr>queue = \<lparr>ring = Some [\<lparr>ticket = 4294967295, val = 6\<rparr>, \<lparr>ticket = 4294967294, val = 5\<rparr>], mask = 1, finish = False, head = 8589934589, tail = 8589934591\<rparr>, sched = [[], [], [OtherHeadFetchAdd, OtherStoreAndWake 1 4294967295], [], []], log = []\<rparr>)))) \<and>
   fst (Dequeue (\<lambda>x. x) (0::nat) None
          \<lparr>queue = \<lparr>ring = Some [\<lparr>ticket = 0, val = 6\<rparr>, \<lparr>ticket = 4294967295, val = 5\<rparr>], mask = 1, finish = False, head = 8589934591, tail = 8589934592\<rparr>, sched = [[], [], [], [OtherValueAssign 1 7, OtherStoreAndWake 1 0], [], []], log = []\<rparr>) = Ret (True, 7) \<and>
   map fst (log (snd (Dequeue (\<lambda>x. x) (0::nat) None
          \<lparr>queue = \<lparr>ring = Some [\<lparr>ticket = 0, val = 6\<rparr>, \<lparr>ticket = 4294967295, val = 5\<rparr>], mask = 1, finish = False, head = 8589934591, tail = 8589934592\<rparr>, sched = [[], [], [], [OtherValueAssign 1 7, OtherStoreAndWake 1 0], [], []], log = []\<rparr>))) =
     [HeadFetchAdd memory_order_relaxed 8589934591, SlotLoad 1 4294967295,
      FinishLoad memory_order_relaxed False, SlotWaitAndLoad 1 4294967295 0,
      ValueMoveOut 1 7, SlotStoreAndWake 1 1] \<and>
   ring (queue (snd (Dequeue (\<lambda>x. x) (0::nat) None
          \<lparr>queue = \<lparr>ring = Some [\<lparr>ticket = 0, val = 6\<rparr>, \<lparr>ticket = 4294967295, val = 5\<rparr>], mask = 1, finish = False, head = 8589934591, tail = 8589934592\<rparr>, sched = [[], [], [], [OtherValueAssign 1 7, OtherStoreAndWake 1 0], [], []], log = []\<rparr>))) =
     Some [\<lparr>ticket = 0, val = 6\<rparr>, \<lparr>ticket = 1, val = 7\<rparr>] \<and>
   (\<exists>h c p q wait s1 slot q2.
      log (snd (Dequeue (\<lambda>x. x) (0::nat) None
          \<lparr>queue = \<lparr>ring = Some [\<lparr>ticket = 0, val = 6\<rparr>, \<lparr>ticket = 4294967295, val = 5\<rparr>], mask = 1, finish = False, head = 8589934591, tail = 8589934592\<rparr>, sched = [[], [], [], [OtherValueAssign 1 7, OtherStoreAndWake 1 0], [], []], log = []\<rparr>)) =
        (HeadFetchAdd memory_order_relaxed h, q, q\<lparr>head := h + 1\<rparr>) # wait @
        [s1, (SlotStoreAndWake slot p, q2, queue (snd (Dequeue (\<lambda>x. x) (0::nat) None
          \<lparr>queue = \<lparr>ring = Some [\<lparr>ticket = 0, val = 6\<rparr>, \<lparr>ticket = 4294967295, val = 5\<rparr>], mask = 1, finish = False, head = 8589934591, tail = 8589934592\<rparr>, sched = [[], [], [], [OtherValueAssign 1 7, OtherStoreAndWake 1 0], [], []], log = []\<rparr>)))] \<and>
      unat c = (unat h + 1) mod 2 ^ 32 \<and> unat p = (unat h + (unat (1::u32) + 1)) mod 2 ^ 32 \<and>
      ends_at c wait \<and> list_all reads_ticket wait \<and>
      slot_updated slot (\<lambda>s. s\<lparr>ticket := p\<rparr>) q2 (queue (snd (Dequeue (\<lambda>x. x) (0::nat) None
          \<lparr>queue = \<lparr>ring = Some [\<lparr>ticket = 0, val = 6\<rparr>, \<lparr>ticket = 4294967295, val = 5\<rparr>], mask = 1, finish = False, head = 8589934591, tail = 8589934592\<rparr>, sched = [[], [], [], [OtherValueAssign 1 7, OtherStoreAndWake 1 0], [], []], log = []\<rparr>))))"
proof -
  let ?we = "\<lparr>queue = \<lparr>ring = Some [\<lparr>ticket = 4294967295, val = 6\<rparr>, \<lparr>ticket = 4294967294, val = 5\<rparr>], mask = 1, finish = False, head = 8589934589, tail = 8589934591\<rparr>, sched = [[], [], [OtherHeadFetchAdd, OtherStoreAndWake 1 4294967295], [], []], log = []\<rparr>"
  let ?wd = "\<lparr>queue = \<lparr>ring = Some [\<lparr>ticket = 0, val = 6\<rparr>, \<lparr>ticket = 4294967295, val = 5\<rparr>], mask = 1, finish = False, head = 8589934591, tail = 8589934592\<rparr>, sched = [[], [], [], [OtherValueAssign 1 7, OtherStoreAndWake 1 0], [], []], log = []\<rparr>"
  have genE: "\<exists>t c p q wait s1 slot q2.
      log w' = (TailFetchAdd memory_order_seq_cst t, q, q\<lparr>tail := t + 1\<rparr>) # wait @
        [s1, (SlotStoreAndWake slot p, q2, queue w')] \<and>
      unat c = unat t mod 2 ^ 32 \<and> unat p = (unat t + 1) mod 2 ^ 32 \<and>
      ends_at c wait \<and> list_all reads_ticket wait \<and>
      slot_updated slot (\<lambda>s. s\<lparr>ticket := p\<rparr>) q2 (queue w')"
    if "Enqueue v None w = (Ret (), w')" and "log w = []" and "log w' \<noteq> []"
    for v :: nat and w w'
    using ticket_truncation [where v = v and backoff = None and w = w and r = "Ret ()"
        and w' = w', THEN conjunct1] that
    by (auto split: if_splits)
  have genD: "\<exists>h c p q wait s1 slot q2.
      log w' = (HeadFetchAdd memory_order_relaxed h, q, q\<lparr>head := h + 1\<rparr>) # wait @
        [s1, (SlotStoreAndWake slot p, q2, queue w')] \<and>
      unat c = (unat h + 1) mod 2 ^ 32 \<and>
      unat p = (unat h + (unat (mask (queue w)) + 1)) mod 2 ^ 32 \<and>
      ends_at c wait \<and> list_all reads_ticket wait \<and>
      slot_updated slot (\<lambda>s. s\<lparr>ticket := p\<rparr>) q2 (queue w')"
    if "Dequeue mv v None w = (Ret (True, v'), w')" and "log w = []" and "log w' \<noteq> []"
    for v v' :: nat and mv w w'
    using ticket_truncation [where v = v and backoff = None and w = w and moved_from = mv
        and rd = "Ret (True, v')" and wd = w', THEN conjunct2] that
    by (auto split: if_splits)
  have re: "fst (Enqueue (7::nat) None ?we) = Ret ()" by code_simp
  have le: "map fst (log (snd (Enqueue (7::nat) None ?we))) =
     [TailFetchAdd memory_order_seq_cst 8589934591, SlotLoad 1 4294967294,
      SlotWaitAndLoad 1 4294967294 4294967295, ValueAssign 1 7, SlotStoreAndWake 1 0]"
    by code_simp
  have ge: "ring (queue (snd (Enqueue (7::nat) None ?we))) =
     Some [\<lparr>ticket = 4294967295, val = 6\<rparr>, \<lparr>ticket = 0, val = 7\<rparr>]"
    by code_simp
  have rd: "fst (Dequeue (\<lambda>x. x) (0::nat) None ?wd) = Ret (True, 7)" by code_simp
  have ld: "map fst (log (snd (Dequeue (\<lambda>x. x) (0::nat) None ?wd))) =
     [HeadFetchAdd memory_order_relaxed 8589934591, SlotLoad 1 4294967295,
      FinishLoad memory_order_relaxed False, SlotWaitAndLoad 1 4294967295 0,
      ValueMoveOut 1 7, SlotStoreAndWake 1 1]"
    by code_simp
  have gd: "ring (queue (snd (Dequeue (\<lambda>x. x) (0::nat) None ?wd))) =
     Some [\<lparr>ticket = 0, val = 6\<rparr>, \<lparr>ticket = 1, val = 7\<rparr>]"
    by code_simp
  from re have ee: "Enqueue (7::nat) None ?we = (Ret (), snd (Enqueue (7::nat) None ?we))"
    by (simp add: prod_eq_iff)
  from le have ne: "log (snd (Enqueue (7::nat) None ?we)) \<noteq> []" by auto
  from rd have ed: "Dequeue (\<lambda>x. x) (0::nat) None ?wd =
      (Ret (True, 7), snd (Dequeue (\<lambda>x. x) (0::nat) None ?wd))"
    by (simp add: prod_eq_iff)
  from ld have nd: "log (snd (Dequeue (\<lambda>x. x) (0::nat) None ?wd)) \<noteq> []" by auto
  have ce: "\<exists>t c p q wait s1 slot q2.
      log (snd (Enqueue (7::nat) None ?we)) =
        (TailFetchAdd memory_order_seq_cst t, q, q\<lparr>tail := t + 1\<rparr>) # wait @
        [s1, (SlotStoreAndWake slot p, q2, queue (snd (Enqueue (7::nat) None ?we)))] \<and>
      unat c = unat t mod 2 ^ 32 \<and> unat p = (unat t + 1) mod 2 ^ 32 \<and>
      ends_at c wait \<and> list_all reads_ticket wait \<and>
      slot_updated slot (\<lambda>s. s\<lparr>ticket := p\<rparr>) q2 (queue (snd (Enqueue (7::nat) None ?we)))"
    using genE [OF ee _ ne] by simp
  have cd: "\<exists>h c p q wait s1 slot q2.
      log (snd (Dequeue (\<lambda>x. x) (0::nat) None ?wd)) =
        (HeadFetchAdd memory_order_relaxed h, q, q\<lparr>head := h + 1\<rparr>) # wait @
        [s1, (SlotStoreAndWake slot p, q2, queue (snd (Dequeue (\<lambda>x. x) (0::nat) None ?wd)))] \<and>
      unat c = (unat h + 1) mod 2 ^ 32 \<and> unat p = (unat h + (unat (1::u32) + 1)) mod 2 ^ 32 \<and>
      ends_at c wait \<and> list_all reads_ticket wait \<and>
      slot_updated slot (\<lambda>s. s\<lparr>ticket := p\<rparr>) q2
        (queue (snd (Dequeue (\<lambda>x. x) (0::nat) None ?wd)))"
    using genD [OF ed _ nd] by simp
  from re le ge ce rd ld gd cd show ?thesis by (intro conjI)
qed

text \<open>
  Claim C8. In an \<open>Enqueue\<close> or a \<open>Dequeue\<close> called with a backoff, the ticket loads and
  backoff calls of the whole call are: the first plain load; then, while the backoff
  returns false, iterations that call the backoff (call \<open>n\<close> returns \<open>backoff n\<close>) and then
  load plainly; and from the first call in which the backoff returns true, the plain load
  of that iteration followed by \<open>WaitAndLoad\<close> only, with no call of the backoff any more.
  This holds of every call, returned or not.
\<close>

theorem backoff_then_wait:
  "(Enqueue v (Some backoff) w = (r, w') \<and> log w = [] \<longrightarrow>
      wait_with_backoff backoff (loop_events (log w'))) \<and>
   (Dequeue moved_from v (Some backoff) w = (r', w'') \<and> log w = [] \<longrightarrow>
      wait_with_backoff backoff (loop_events (log w'')))"
proof (intro conjI impI)
  assume "Enqueue v (Some backoff) w = (r, w') \<and> log w = []"
  then show "wait_with_backoff backoff (loop_events (log w'))"
    by (auto intro: Enqueue_backoff)
next
  assume "Dequeue moved_from v (Some backoff) w = (r', w'') \<and> log w = []"
  then show "wait_with_backoff backoff (loop_events (log w''))"
    by (auto intro: Dequeue_backoff)
qed

theorem backoff_then_wait_witness:
  "loop_events (log (snd (Enqueue (30::nat) (Some (\<lambda>n. 1 \<le> n))
          \<lparr>queue = \<lparr>ring = Some [\<lparr>ticket = 1, val = 10\<rparr>, \<lparr>ticket = 2, val = 20\<rparr>], mask = 1, finish = False, head = 0, tail = 2\<rparr>, sched = [[], [], [], [], [], [], [OtherHeadFetchAdd, OtherStoreAndWake 0 2], [], []], log = []\<rparr>))) =
     [SlotLoad 0 1, BackoffCall False, SlotLoad 0 1, BackoffCall True, SlotLoad 0 1,
      SlotWaitAndLoad 0 1 2] \<and>
   wait_with_backoff (\<lambda>n. 1 \<le> n)
     (loop_events (log (snd (Enqueue (30::nat) (Some (\<lambda>n. 1 \<le> n))
          \<lparr>queue = \<lparr>ring = Some [\<lparr>ticket = 1, val = 10\<rparr>, \<lparr>ticket = 2, val = 20\<rparr>], mask = 1, finish = False, head = 0, tail = 2\<rparr>, sched = [[], [], [], [], [], [], [OtherHeadFetchAdd, OtherStoreAndWake 0 2], [], []], log = []\<rparr>)))) \<and>
   loop_events (log (snd (Dequeue (\<lambda>x. x) (0::nat) (Some (\<lambda>n. 1 \<le> n))
          \<lparr>queue = \<lparr>ring = Some [\<lparr>ticket = 0, val = 0\<rparr>, \<lparr>ticket = 1, val = 0\<rparr>], mask = 1, finish = False, head = 0, tail = 0\<rparr>, sched = [[], [], [], [], [], [], [], [], [], [OtherTailFetchAdd, OtherValueAssign 0 7, OtherStoreAndWake 0 1], [], []], log = []\<rparr>))) =
     [SlotLoad 0 0, BackoffCall False, SlotLoad 0 0, BackoffCall True, SlotLoad 0 0,
      SlotWaitAndLoad 0 0 1] \<and>
   wait_with_backoff (\<lambda>n. 1 \<le> n)
     (loop_events (log (snd (Dequeue (\<lambda>x. x) (0::nat) (Some (\<lambda>n. 1 \<le> n))
          \<lparr>queue = \<lparr>ring = Some [\<lparr>ticket = 0, val = 0\<rparr>, \<lparr>ticket = 1, val = 0\<rparr>], mask = 1, finish = False, head = 0, tail = 0\<rparr>, sched = [[], [], [], [], [], [], [], [], [], [OtherTailFetchAdd, OtherValueAssign 0 7, OtherStoreAndWake 0 1], [], []], log = []\<rparr>))))"
proof -
  let ?b = "\<lambda>n::nat. 1 \<le> n"
  let ?we = "\<lparr>queue = \<lparr>ring = Some [\<lparr>ticket = 1, val = 10\<rparr>, \<lparr>ticket = 2, val = 20\<rparr>], mask = 1, finish = False, head = 0, tail = 2\<rparr>, sched = [[], [], [], [], [], [], [OtherHeadFetchAdd, OtherStoreAndWake 0 2], [], []], log = []\<rparr>"
  let ?wd = "\<lparr>queue = \<lparr>ring = Some [\<lparr>ticket = 0, val = 0\<rparr>, \<lparr>ticket = 1, val = 0\<rparr>], mask = 1, finish = False, head = 0, tail = 0\<rparr>, sched = [[], [], [], [], [], [], [], [], [], [OtherTailFetchAdd, OtherValueAssign 0 7, OtherStoreAndWake 0 1], [], []], log = []\<rparr>"
  have le: "loop_events (log (snd (Enqueue (30::nat) (Some ?b) ?we))) =
     [SlotLoad 0 1, BackoffCall False, SlotLoad 0 1, BackoffCall True, SlotLoad 0 1,
      SlotWaitAndLoad 0 1 2]"
    by code_simp
  have ld: "loop_events (log (snd (Dequeue (\<lambda>x. x) (0::nat) (Some ?b) ?wd))) =
     [SlotLoad 0 0, BackoffCall False, SlotLoad 0 0, BackoffCall True, SlotLoad 0 0,
      SlotWaitAndLoad 0 0 1]"
    by code_simp
  have "Enqueue (30::nat) (Some ?b) ?we =
      (fst (Enqueue (30::nat) (Some ?b) ?we), snd (Enqueue (30::nat) (Some ?b) ?we)) \<and>
      log ?we = []"
    by simp
  with backoff_then_wait [of 30 ?b ?we "fst (Enqueue (30::nat) (Some ?b) ?we)"
      "snd (Enqueue (30::nat) (Some ?b) ?we)"]
  have ce: "wait_with_backoff ?b (loop_events (log (snd (Enqueue (30::nat) (Some ?b) ?we))))"
    by blast
  have "Dequeue (\<lambda>x. x) (0::nat) (Some ?b) ?wd =
      (fst (Dequeue (\<lambda>x. x) (0::nat) (Some ?b) ?wd),
       snd (Dequeue (\<lambda>x. x) (0::nat) (Some ?b) ?wd)) \<and>
      log ?wd = []"
    by simp
  with backoff_then_wait [of 0 ?b ?wd _ _ "\<lambda>x. x"
      "fst (Dequeue (\<lambda>x. x) (0::nat) (Some ?b) ?wd)"
      "snd (Dequeue (\<lambda>x. x) (0::nat) (Some ?b) ?wd)"]
  have cd: "wait_with_backoff ?b
      (loop_events (log (snd (Dequeue (\<lambda>x. x) (0::nat) (Some ?b) ?wd))))"
    by blast
  from le ce ld cd show ?thesis by (intro conjI)
qed

subsection \<open>Finish\<close>

text \<open>
  Claim C9. On a constructed queue that has not been moved from, \<open>Finish\<close> given its
  \<open>N + 1\<close> steps returns, and its steps are the store of \<open>true\<close> to the finish flag
  followed by \<open>Wake\<close> on slot \<open>0\<close>, slot \<open>1\<close>, ... slot \<open>N - 1\<close>, whatever the other threads
  write meanwhile. The flag is then raised, and \<open>Finished\<close> returns \<open>true\<close> at any later
  time. Nothing lowers a raised flag: not a call of \<open>Enqueue\<close>, \<open>Dequeue\<close> or \<open>Finish\<close>,
  returned or not, not a write of another thread, and not being moved from.
\<close>

theorem Finish_raises_flag:
  assumes "live (queue w)" and "log w = []" and "unat (mask (queue w) + 1) < length (sched w)"
  shows "(\<exists>w'. Finish w = (Ret (), w') \<and>
            map fst (log w') =
              FinishStore memory_order_relaxed True #
              map SlotWake [0..<unat (mask (queue w) + 1)] \<and>
            finish (queue w') \<and>
            (\<forall>os rest. fst (Finished (w'\<lparr>sched := os # rest\<rparr>)) = Ret True)) \<and>
         keeps_finish (Enqueue v backoff :: 'v world \<Rightarrow> unit res \<times> 'v world) \<and>
         keeps_finish (Dequeue moved_from v backoff) \<and>
         keeps_finish (Finish :: 'v world \<Rightarrow> unit res \<times> 'v world) \<and>
         (\<forall>a q. finish q \<longrightarrow> finish (perform a (q :: 'v BoundedQueue))) \<and>
         finish (snd (BoundedQueue_move other)) = finish (other :: 'v BoundedQueue)"
proof -
  from Finish_total [OF assms] obtain w' where
    w': "Finish w = (Ret (), w')"
      "map fst (log w') =
         FinishStore memory_order_relaxed True # map SlotWake [0..<unat (mask (queue w) + 1)]"
      "finish (queue w')"
    by auto
  have "fst (Finished (w'\<lparr>sched := os # rest\<rparr>)) = Ret True" for os rest
    using finish_interfere [OF w'(3), of os]
    by (simp add: Finished_def finish_load_def atomic_def Let_def)
  with w' have "\<exists>w'. Finish w = (Ret (), w') \<and>
            map fst (log w') =
              FinishStore memory_order_relaxed True #
              map SlotWake [0..<unat (mask (queue w) + 1)] \<and>
            finish (queue w') \<and>
            (\<forall>os rest. fst (Finished (w'\<lparr>sched := os # rest\<rparr>)) = Ret True)"
    by (intro exI [of _ w'] conjI allI)
  moreover have "keeps_finish (Enqueue v backoff :: 'v world \<Rightarrow> unit res \<times> 'v world)"
    unfolding keeps_finish_def by (intro allI impI) (rule Enqueue_finish)
  moreover have "keeps_finish (Dequeue moved_from v backoff)"
    unfolding keeps_finish_def by (intro allI impI) (rule Dequeue_finish)
  moreover have "keeps_finish (Finish :: 'v world \<Rightarrow> unit res \<times> 'v world)"
    unfolding keeps_finish_def by (intro allI impI) (rule Finish_finish)
  moreover have "\<forall>a q. finish q \<longrightarrow> finish (perform a (q :: 'v BoundedQueue))"
    by (simp add: finish_perform)
  moreover have "finish (snd (BoundedQueue_move other)) = finish other"
    by (simp add: BoundedQueue_move_def)
  ultimately show ?thesis by (intro conjI)
qed

theorem Finish_raises_flag_witness:
  "live \<lparr>ring = Some [\<lparr>ticket = 0, val = 0::nat\<rparr>, \<lparr>ticket = 1, val = 0\<rparr>], mask = 1, finish = False, head = 0, tail = 0\<rparr> \<and>
   fst (Finish \<lparr>queue = \<lparr>ring = Some [\<lparr>ticket = 0, val = 0::nat\<rparr>, \<lparr>ticket = 1, val = 0\<rparr>], mask = 1, finish = False, head = 0, tail = 0\<rparr>, sched = [[], [OtherTailFetchAdd], []], log = []\<rparr>) = Ret () \<and>
   map fst (log (snd (Finish \<lparr>queue = \<lparr>ring = Some [\<lparr>ticket = 0, val = 0::nat\<rparr>, \<lparr>ticket = 1, val = 0\<rparr>], mask = 1, finish = False, head = 0, tail = 0\<rparr>, sched = [[], [OtherTailFetchAdd], []], log = []\<rparr>))) =
     [FinishStore memory_order_relaxed True, SlotWake 0, SlotWake 1] \<and>
   finish (queue (snd (Finish \<lparr>queue = \<lparr>ring = Some [\<lparr>ticket = 0, val = 0::nat\<rparr>, \<lparr>ticket = 1, val = 0\<rparr>], mask = 1, finish = False, head = 0, tail = 0\<rparr>, sched = [[], [OtherTailFetchAdd], []], log = []\<rparr>))) \<and>
   (\<exists>w'. Finish \<lparr>queue = \<lparr>ring = Some [\<lparr>ticket = 0, val = 0::nat\<rparr>, \<lparr>ticket = 1, val = 0\<rparr>], mask = 1, finish = False, head = 0, tail = 0\<rparr>, sched = [[], [OtherTailFetchAdd], []], log = []\<rparr> = (Ret (), w') \<and>
      map fst (log w') =
        FinishStore memory_order_relaxed True # map SlotWake [0..<unat ((1::u32) + 1)] \<and>
      finish (queue w'))"
proof -
  let ?w = "\<lparr>queue = \<lparr>ring = Some [\<lparr>ticket = 0, val = 0::nat\<rparr>, \<lparr>ticket = 1, val = 0\<rparr>], mask = 1, finish = False, head = 0, tail = 0\<rparr>, sched = [[], [OtherTailFetchAdd], []], log = []\<rparr>"
  have lv: "live (queue ?w)" by (simp add: live_def)
  have r: "fst (Finish ?w) = Ret ()" by code_simp
  have l: "map fst (log (snd (Finish ?w))) =
     [FinishStore memory_order_relaxed True, SlotWake 0, SlotWake 1]"
    by code_simp
  have f: "finish (queue (snd (Finish ?w)))" by code_simp
  have n: "unat (mask (queue ?w) + 1) < length (sched ?w)" by simp
  have e: "log ?w = []" by simp
  from Finish_raises_flag [of ?w 0 None "\<lambda>x. x" "queue ?w", OF lv e n, THEN conjunct1]
  have "\<exists>w'. Finish ?w = (Ret (), w') \<and>
      map fst (log w') =
        FinishStore memory_order_relaxed True # map SlotWake [0..<unat ((1::u32) + 1)] \<and>
      finish (queue w')"
    by auto
  with lv r l f show ?thesis by simp
qed

end
